theory Spec2Isabelle
  imports Main
begin

section \<open>The buffer manager of src/src/buffer.cpp\<close>

text \<open>
  The class \<open>BufMgr\<close> keeps a pool of \<open>numBufs\<close> page frames, a descriptor per frame, a
  hash table from (file, page number) to frame number and the hand of a clock replacer.
  Every method is embedded as a function from the state before the call to a result and
  the state after it; a C++ exception is a result \<open>Inl e\<close>, and the state that comes with
  it is the state the exception leaves behind.

  Frame numbers, page numbers and pin counts are natural numbers. The clock hand is only
  ever incremented below \<open>numBufs\<close>, itself a 32-bit quantity, so the increment of
  \<open>advanceClock\<close> never wraps. A \<open>File*\<close> argument of a public method is a non-null handle,
  here a number naming the file object; the null pointer only occurs in the field \<open>file\<close>
  of a cleared descriptor (\<open>filePtr\<close> here), which is why that field is an option. The module-level variable
  \<open>fid\<close> of the source is written before it is read in every method and is a local here.
\<close>

subsection \<open>Data\<close>

type_synonym FrameId = nat
type_synonym PageId = nat
type_synonym FileId = nat

record Page =
  page_number :: PageId
  contents :: string

datatype error =
    BufferExceededException
  | PageNotPinnedException
  | PagePinnedException
  | BadBufferException
  | HashNotFoundException
  | HashAlreadyPresentException
  | InvalidPageException
  | Undefined

text \<open>The calls made to the file collaborator, in the order they are made.\<close>

datatype io_event =
    ReadPage FileId PageId
  | WritePage FileId Page
  | AllocatePage FileId
  | DeletePage FileId PageId

record File =
  pages :: "PageId \<rightharpoonup> Page"
  next_page :: PageId

record BufDesc =
  filePtr :: "FileId option"
  pageNo :: PageId
  frameNo :: FrameId
  pinCnt :: nat
  dirty :: bool
  valid :: bool
  refbit :: bool

record BufMgr =
  bufDescTable :: "BufDesc list"
  bufPool :: "Page list"
  hashTable :: "(FileId \<times> PageId) \<rightharpoonup> FrameId"
  numBufs :: nat
  clockHand :: FrameId
  files :: "FileId \<Rightarrow> File"
  io :: "io_event list"

subsection \<open>The collaborators declared outside src/\<close>

text \<open>
  Modelled from the spec: \<open>BufDesc::Clear\<close> of buffer.h, which is not under src/. The spec
  calls the result the empty descriptor: not valid, not dirty, not referenced, pin count
  zero, no owner and no page. The frame number is not part of that state and is kept.
\<close>

definition BufDesc_Clear :: "BufDesc \<Rightarrow> BufDesc" where
  "BufDesc_Clear d =
     d\<lparr>pinCnt := 0, filePtr := None, pageNo := 0, dirty := False, refbit := False,
       valid := False\<rparr>"

text \<open>
  Modelled from the spec: \<open>BufDesc::Set\<close> of buffer.h, which is not under src/. The spec
  gives the descriptor of a freshly loaded page as valid, not dirty, not referenced, pin
  count one, owner and page set.
\<close>

definition BufDesc_Set :: "FileId \<Rightarrow> PageId \<Rightarrow> BufDesc \<Rightarrow> BufDesc" where
  "BufDesc_Set f p d =
     d\<lparr>filePtr := Some f, pageNo := p, pinCnt := 1, dirty := False, valid := True,
       refbit := False\<rparr>"

text \<open>
  Modelled from the spec: the slot index \<open>BufHashTbl\<close>, which is not under src/. Lookup and
  remove fail when the identity is absent, insert fails when it is present. A null file
  pointer is never inserted, so removing under it finds nothing.
\<close>

definition ht_lookup ::
  "((FileId \<times> PageId) \<rightharpoonup> FrameId) \<Rightarrow> FileId \<Rightarrow> PageId \<Rightarrow> error + FrameId" where
  "ht_lookup h f p =
     (case h (f, p) of None \<Rightarrow> Inl HashNotFoundException | Some i \<Rightarrow> Inr i)"

definition ht_insert ::
  "((FileId \<times> PageId) \<rightharpoonup> FrameId) \<Rightarrow> FileId \<Rightarrow> PageId \<Rightarrow> FrameId
     \<Rightarrow> error + ((FileId \<times> PageId) \<rightharpoonup> FrameId)" where
  "ht_insert h f p i =
     (case h (f, p) of
        Some j \<Rightarrow> Inl HashAlreadyPresentException
      | None \<Rightarrow> Inr (h((f, p) \<mapsto> i)))"

definition ht_remove ::
  "((FileId \<times> PageId) \<rightharpoonup> FrameId) \<Rightarrow> FileId option \<Rightarrow> PageId
     \<Rightarrow> error + ((FileId \<times> PageId) \<rightharpoonup> FrameId)" where
  "ht_remove h fo p =
     (case fo of
        None \<Rightarrow> Inl HashNotFoundException
      | Some f \<Rightarrow>
          (case h (f, p) of
             None \<Rightarrow> Inl HashNotFoundException
           | Some j \<Rightarrow> Inr (h((f, p) := None))))"

text \<open>
  Modelled from the spec: the file collaborator \<open>File\<close>, which is not under src/.
  \<open>readPage\<close> fails if the page does not exist, \<open>writePage\<close> stores a page under the
  page's own number, \<open>allocatePage\<close> creates a page with a freshly assigned number and
  \<open>deletePage\<close> removes a page. Every call is appended to the log \<open>io\<close>.
\<close>

definition file_readPage :: "FileId \<Rightarrow> PageId \<Rightarrow> BufMgr \<Rightarrow> (error + Page) \<times> BufMgr" where
  "file_readPage f p s =
     (case pages (files s f) p of
        None \<Rightarrow> (Inl InvalidPageException, s\<lparr>io := io s @ [ReadPage f p]\<rparr>)
      | Some pg \<Rightarrow> (Inr pg, s\<lparr>io := io s @ [ReadPage f p]\<rparr>))"

definition file_writePage :: "FileId \<Rightarrow> Page \<Rightarrow> BufMgr \<Rightarrow> BufMgr" where
  "file_writePage f pg s =
     s\<lparr>files := (files s)(f := (files s f)\<lparr>pages := (pages (files s f))(page_number pg \<mapsto> pg)\<rparr>),
       io := io s @ [WritePage f pg]\<rparr>"

definition file_allocatePage :: "FileId \<Rightarrow> BufMgr \<Rightarrow> Page \<times> BufMgr" where
  "file_allocatePage f s =
     (let fl = files s f;
          pg = \<lparr>page_number = next_page fl, contents = []\<rparr>
      in (pg,
          s\<lparr>files := (files s)(f := fl\<lparr>pages := (pages fl)(next_page fl \<mapsto> pg),
                                       next_page := Suc (next_page fl)\<rparr>),
            io := io s @ [AllocatePage f]\<rparr>))"

definition file_deletePage :: "FileId \<Rightarrow> PageId \<Rightarrow> BufMgr \<Rightarrow> BufMgr" where
  "file_deletePage f p s =
     s\<lparr>files := (files s)(f := (files s f)\<lparr>pages := (pages (files s f))(p := None)\<rparr>),
       io := io s @ [DeletePage f p]\<rparr>"

subsection \<open>Constructor\<close>

text \<open>
  \<open>BufMgr::BufMgr\<close>: every descriptor is default-constructed (cleared), gets its frame
  number and is marked invalid; the clock hand starts at the last frame. The file objects
  exist outside the manager and are handed in as \<open>fs\<close>.
\<close>

definition BufMgr_init :: "nat \<Rightarrow> (FileId \<Rightarrow> File) \<Rightarrow> BufMgr" where
  "BufMgr_init bufs fs =
     \<lparr>bufDescTable =
        map (\<lambda>i. \<lparr>filePtr = None, pageNo = 0, frameNo = i, pinCnt = 0, dirty = False,
                   valid = False, refbit = False\<rparr>) [0..<bufs],
      bufPool = replicate bufs \<lparr>page_number = 0, contents = []\<rparr>,
      hashTable = Map.empty,
      numBufs = bufs,
      clockHand = (if bufs = 0 then 2 ^ 32 - 1 else bufs - 1),
      files = fs,
      io = []\<rparr>"

subsection \<open>The clock replacer\<close>

definition advanceClock :: "BufMgr \<Rightarrow> BufMgr" where
  "advanceClock s = s\<lparr>clockHand := (clockHand s + 1) mod numBufs s\<rparr>"

text \<open>What one pass through the body of the \<open>while\<close> loop of \<open>allocBuf\<close> ends in.\<close>

datatype sweep = Continue | Found FrameId | Throw error

text \<open>
  One pass through the loop body. With no frames the remainder of \<open>advanceClock\<close> divides
  by zero, and a hand outside the arrays reads out of bounds: both are \<open>Undefined\<close>.
\<close>

definition allocBuf_visit :: "FrameId \<Rightarrow> BufMgr \<Rightarrow> sweep \<times> BufMgr" where
  "allocBuf_visit starting s =
     (if numBufs s = 0 then (Throw Undefined, s)
      else
        let s1 = advanceClock s; c = clockHand s1 in
        if \<not> (c < length (bufDescTable s1) \<and> c < length (bufPool s1))
        then (Throw Undefined, s1)
        else
          let d = bufDescTable s1 ! c in
          if valid d then
            if \<not> refbit d then
              if pinCnt d = 0 then
                (case ht_remove (hashTable s1) (filePtr d) (pageNo d) of
                   Inl e \<Rightarrow> (Throw e, s1)
                 | Inr h \<Rightarrow>
                     if dirty d then
                       (case filePtr d of
                          None \<Rightarrow> (Throw Undefined, s1\<lparr>hashTable := h\<rparr>)
                        | Some f \<Rightarrow>
                            (Found (frameNo d),
                             file_writePage f (bufPool s1 ! c) (s1\<lparr>hashTable := h\<rparr>)))
                     else
                       (Found (frameNo d),
                        s1\<lparr>hashTable := h,
                           bufDescTable := (bufDescTable s1)[c := BufDesc_Clear d]\<rparr>))
              else
                if starting = c then (Throw BufferExceededException, s1)
                else (Continue, s1)
            else (Continue, s1\<lparr>bufDescTable := (bufDescTable s1)[c := d\<lparr>refbit := False\<rparr>]\<rparr>)
          else (Found (frameNo d), s1))"

text \<open>
  The \<open>while\<close> loop of \<open>allocBuf\<close>. The constructor leaves the hand below \<open>numBufs\<close>
  and \<open>advanceClock\<close> keeps it there; with a starting position outside the pool the exit
  test of the loop could never fire, and such a call is \<open>Undefined\<close>.
\<close>

function allocBuf_loop :: "FrameId \<Rightarrow> BufMgr \<Rightarrow> (error + FrameId) \<times> BufMgr" where
  "allocBuf_loop starting s =
     (if \<not> starting < numBufs s then (Inl Undefined, s)
      else
        (case allocBuf_visit starting s of
           (Continue, s') \<Rightarrow> allocBuf_loop starting s'
         | (Found frame, s') \<Rightarrow> (Inr frame, s')
         | (Throw e, s') \<Rightarrow> (Inl e, s')))"
  by pat_completeness auto

text \<open>\<open>BufMgr::allocBuf\<close>: the loop, then \<open>Clear\<close> on the descriptor under the hand.\<close>

definition allocBuf :: "BufMgr \<Rightarrow> (error + FrameId) \<times> BufMgr" where
  "allocBuf s =
     (case allocBuf_loop (clockHand s) s of
        (Inl e, s') \<Rightarrow> (Inl e, s')
      | (Inr frame, s') \<Rightarrow>
          (Inr frame,
           s'\<lparr>bufDescTable :=
                (bufDescTable s')[clockHand s' := BufDesc_Clear (bufDescTable s' ! clockHand s')]\<rparr>))"

subsection \<open>The public methods\<close>

text \<open>
  \<open>BufMgr::readPage\<close>. The result is the frame whose storage the returned \<open>Page*\<close> points
  to. A frame number outside the arrays is an out-of-bounds access, \<open>Undefined\<close>.
\<close>

definition readPage :: "FileId \<Rightarrow> PageId \<Rightarrow> BufMgr \<Rightarrow> (error + FrameId) \<times> BufMgr" where
  "readPage f p s =
     (case ht_lookup (hashTable s) f p of
        Inl e \<Rightarrow>
          (case allocBuf s of
             (Inl e', s1) \<Rightarrow> (Inl e', s1)
           | (Inr fid, s1) \<Rightarrow>
               (case file_readPage f p s1 of
                  (Inl e', s2) \<Rightarrow> (Inl e', s2)
                | (Inr tPage, s2) \<Rightarrow>
                    if \<not> (fid < length (bufDescTable s2) \<and> fid < length (bufPool s2))
                    then (Inl Undefined, s2)
                    else
                      let s3 = s2\<lparr>bufPool := (bufPool s2)[fid := tPage]\<rparr> in
                      (case ht_insert (hashTable s3) f p fid of
                         Inl e' \<Rightarrow> (Inl e', s3)
                       | Inr h \<Rightarrow>
                           (Inr fid,
                            s3\<lparr>hashTable := h,
                               bufDescTable :=
                                 (bufDescTable s3)[fid := BufDesc_Set f p (bufDescTable s3 ! fid)]\<rparr>))))
      | Inr fid \<Rightarrow>
          if \<not> fid < length (bufDescTable s) then (Inl Undefined, s)
          else
            let d = bufDescTable s ! fid in
            (Inr fid,
             s\<lparr>bufDescTable := (bufDescTable s)[fid := d\<lparr>refbit := True, pinCnt := pinCnt d + 1\<rparr>]\<rparr>))"

text \<open>\<open>BufMgr::unPinPage\<close>. A page that is not in the hash table is passed over in silence.\<close>

definition unPinPage :: "FileId \<Rightarrow> PageId \<Rightarrow> bool \<Rightarrow> BufMgr \<Rightarrow> (error + unit) \<times> BufMgr" where
  "unPinPage f p dirty' s =
     (case ht_lookup (hashTable s) f p of
        Inl e \<Rightarrow> (Inr (), s)
      | Inr fid \<Rightarrow>
          if \<not> fid < length (bufDescTable s) then (Inl Undefined, s)
          else
            let d = bufDescTable s ! fid in
            if pinCnt d = 0 then (Inl PageNotPinnedException, s)
            else
              (Inr (),
               s\<lparr>bufDescTable :=
                   (bufDescTable s)[fid := d\<lparr>pinCnt := pinCnt d - 1,
                                               dirty := (if dirty' then True else dirty d)\<rparr>]\<rparr>))"

text \<open>\<open>BufMgr::flushFile\<close>: the body of its \<open>for\<close> loop at frame \<open>i\<close>, then the loop.\<close>

definition flushFile_frame :: "FileId \<Rightarrow> FrameId \<Rightarrow> BufMgr \<Rightarrow> (error + unit) \<times> BufMgr" where
  "flushFile_frame f i s =
     (if \<not> (i < length (bufDescTable s) \<and> i < length (bufPool s)) then (Inl Undefined, s)
      else
        let d = bufDescTable s ! i in
        if filePtr d = Some f then
          if pinCnt d \<noteq> 0 then (Inl PagePinnedException, s)
          else if \<not> valid d then (Inl BadBufferException, s)
          else
            let s1 = (if dirty d
                      then (file_writePage f (bufPool s ! i) s)
                             \<lparr>bufDescTable := (bufDescTable s)[i := d\<lparr>dirty := False\<rparr>]\<rparr>
                      else s);
                d1 = bufDescTable s1 ! i
            in (case ht_remove (hashTable s1) (filePtr d1) (pageNo d1) of
                  Inl e \<Rightarrow> (Inl e, s1)
                | Inr h \<Rightarrow>
                    (Inr (),
                     s1\<lparr>hashTable := h,
                        bufDescTable := (bufDescTable s1)[i := BufDesc_Clear d1]\<rparr>))
        else (Inr (), s))"

fun flushFile_frames :: "FileId \<Rightarrow> FrameId list \<Rightarrow> BufMgr \<Rightarrow> (error + unit) \<times> BufMgr" where
  "flushFile_frames f [] s = (Inr (), s)"
| "flushFile_frames f (i # is) s =
     (case flushFile_frame f i s of
        (Inl e, s') \<Rightarrow> (Inl e, s')
      | (Inr u, s') \<Rightarrow> flushFile_frames f is s')"

definition flushFile :: "FileId \<Rightarrow> BufMgr \<Rightarrow> (error + unit) \<times> BufMgr" where
  "flushFile f s = flushFile_frames f [0..<numBufs s] s"

text \<open>
  \<open>BufMgr::allocPage\<close>. The result is the number of the new page and the frame whose
  storage the returned \<open>Page*\<close> points to.
\<close>

definition allocPage :: "FileId \<Rightarrow> BufMgr \<Rightarrow> (error + PageId \<times> FrameId) \<times> BufMgr" where
  "allocPage f s =
     (case file_allocatePage f s of
        (newPage, s0) \<Rightarrow>
          (case allocBuf s0 of
             (Inl e, s1) \<Rightarrow> (Inl e, s1)
           | (Inr fid, s1) \<Rightarrow>
               if \<not> (fid < length (bufDescTable s1) \<and> fid < length (bufPool s1))
               then (Inl Undefined, s1)
               else
                 let s2 = s1\<lparr>bufPool := (bufPool s1)[fid := newPage]\<rparr>;
                     pageNo' = page_number (bufPool s2 ! fid)
                 in (case ht_insert (hashTable s2) f pageNo' fid of
                       Inl e \<Rightarrow> (Inl e, s2)
                     | Inr h \<Rightarrow>
                         (Inr (pageNo', fid),
                          s2\<lparr>hashTable := h,
                             bufDescTable :=
                               (bufDescTable s2)[fid := BufDesc_Set f pageNo' (bufDescTable s2 ! fid)]\<rparr>))))"

text \<open>\<open>BufMgr::disposePage\<close>: the body of its \<open>for\<close> loop at frame \<open>i\<close>, the loop, the method.\<close>

definition disposePage_frame ::
  "FileId \<Rightarrow> PageId \<Rightarrow> FrameId \<Rightarrow> BufMgr \<Rightarrow> (error + unit) \<times> BufMgr" where
  "disposePage_frame f p i s =
     (if \<not> i < length (bufDescTable s) then (Inl Undefined, s)
      else
        let d = bufDescTable s ! i in
        if Some f = filePtr d then
          if p = pageNo d then
            if pinCnt d > 0 then (Inl PagePinnedException, s)
            else
              let s1 = s\<lparr>bufDescTable := (bufDescTable s)[i := BufDesc_Clear d]\<rparr> in
              (case ht_remove (hashTable s1) (Some f) p of
                 Inl e \<Rightarrow> (Inl e, s1)
               | Inr h \<Rightarrow> (Inr (), s1\<lparr>hashTable := h\<rparr>))
          else (Inr (), s)
        else (Inr (), s))"

fun disposePage_frames ::
  "FileId \<Rightarrow> PageId \<Rightarrow> FrameId list \<Rightarrow> BufMgr \<Rightarrow> (error + unit) \<times> BufMgr" where
  "disposePage_frames f p [] s = (Inr (), s)"
| "disposePage_frames f p (i # is) s =
     (case disposePage_frame f p i s of
        (Inl e, s') \<Rightarrow> (Inl e, s')
      | (Inr u, s') \<Rightarrow> disposePage_frames f p is s')"

definition disposePage :: "FileId \<Rightarrow> PageId \<Rightarrow> BufMgr \<Rightarrow> (error + unit) \<times> BufMgr" where
  "disposePage f p s =
     (case disposePage_frames f p [0..<numBufs s] s of
        (Inl e, s') \<Rightarrow> (Inl e, s')
      | (Inr u, s') \<Rightarrow> (Inr (), file_deletePage f p s'))"

section \<open>The vocabulary of the properties\<close>

subsection \<open>Consistent states\<close>

text \<open>
  The shape the constructor gives the manager and every method keeps: a pool that is not
  empty, arrays of \<open>numBufs\<close> entries and the hand inside the pool.
\<close>

definition pool_ok :: "BufMgr \<Rightarrow> bool" where
  "pool_ok s \<longleftrightarrow>
     0 < numBufs s \<and> length (bufDescTable s) = numBufs s \<and> length (bufPool s) = numBufs s \<and>
     clockHand s < numBufs s"

text \<open>
  The states the constructor and the public methods produce: the shape above, every
  descriptor carrying its own frame number, a frame owning a file exactly when it is valid,
  and the hash table holding exactly the identities of the valid frames.
\<close>

definition inv :: "BufMgr \<Rightarrow> bool" where
  "inv s \<longleftrightarrow>
     pool_ok s \<and>
     (\<forall>i < numBufs s. frameNo (bufDescTable s ! i) = i) \<and>
     (\<forall>i < numBufs s. valid (bufDescTable s ! i) \<longleftrightarrow> filePtr (bufDescTable s ! i) \<noteq> None) \<and>
     (\<forall>f p i. hashTable s (f, p) = Some i \<longleftrightarrow>
        i < numBufs s \<and> valid (bufDescTable s ! i) \<and> filePtr (bufDescTable s ! i) = Some f \<and>
        pageNo (bufDescTable s ! i) = p)"

text \<open>No two valid frames hold the same page of the same file.\<close>

definition unique_frames :: "BufMgr \<Rightarrow> bool" where
  "unique_frames s \<longleftrightarrow>
     (\<forall>i < numBufs s. \<forall>j < numBufs s.
        valid (bufDescTable s ! i) \<and> valid (bufDescTable s ! j) \<and>
        filePtr (bufDescTable s ! i) = filePtr (bufDescTable s ! j) \<and>
        pageNo (bufDescTable s ! i) = pageNo (bufDescTable s ! j) \<longrightarrow> i = j)"

text \<open>
  The hash table is the exact inverse of the valid frames: it maps an identity to a frame
  exactly when that frame is valid and holds the identity.
\<close>

definition index_exact :: "BufMgr \<Rightarrow> bool" where
  "index_exact s \<longleftrightarrow>
     (\<forall>f p i. hashTable s (f, p) = Some i \<longleftrightarrow>
        i < numBufs s \<and> valid (bufDescTable s ! i) \<and> filePtr (bufDescTable s ! i) = Some f \<and>
        pageNo (bufDescTable s ! i) = p)"

text \<open>
  What \<open>flushFile\<close> needs of the hash table: every valid frame of the file is entered under
  its own identity. Consistent states have this; so do states in which a frame that is not
  valid still names the file.
\<close>

definition indexed_for :: "FileId \<Rightarrow> BufMgr \<Rightarrow> bool" where
  "indexed_for f s \<longleftrightarrow>
     pool_ok s \<and>
     (\<forall>j < numBufs s. valid (bufDescTable s ! j) \<and> filePtr (bufDescTable s ! j) = Some f \<longrightarrow>
        hashTable s (f, pageNo (bufDescTable s ! j)) = Some j)"

subsection \<open>The sweep\<close>

text \<open>
  Two measures of the loop of \<open>allocBuf\<close>: the number of valid frames whose reference
  bit is set, and the distance the hand has still to go to the starting position.
\<close>

definition refcount :: "BufMgr \<Rightarrow> nat" where
  "refcount s = card {i. i < length (bufDescTable s) \<and> valid (bufDescTable s ! i) \<and> refbit (bufDescTable s ! i)}"

definition hand_dist :: "FrameId \<Rightarrow> BufMgr \<Rightarrow> nat" where
  "hand_dist starting s =
     (let h = clockHand s mod numBufs s in
      (if h < starting then starting - h else starting + numBufs s - h) - 1)"

text \<open>
  What the sweep leaves of a state while it passes over slots: everything but the hand and
  reference bits, which may have been cleared.
\<close>

definition refs_cleared :: "BufMgr \<Rightarrow> BufMgr \<Rightarrow> bool" where
  "refs_cleared s s' \<longleftrightarrow>
     numBufs s' = numBufs s \<and> bufPool s' = bufPool s \<and> hashTable s' = hashTable s \<and>
     files s' = files s \<and> io s' = io s \<and>
     length (bufDescTable s') = length (bufDescTable s) \<and>
     (\<forall>i < length (bufDescTable s).
        bufDescTable s' ! i = bufDescTable s ! i \<or>
        bufDescTable s' ! i = (bufDescTable s ! i)\<lparr>refbit := False\<rparr>)"

text \<open>The next visit ends the loop: the slot is free, is a victim, or is pinned at the start.\<close>

definition sweep_stops :: "FrameId \<Rightarrow> BufMgr \<Rightarrow> bool" where
  "sweep_stops st m \<longleftrightarrow>
     (let d = bufDescTable m ! clockHand (advanceClock m)
      in \<not> valid d \<or> (\<not> refbit d \<and> (pinCnt d = 0 \<or> st = clockHand (advanceClock m))))"

text \<open>
  \<open>swept h c i\<close>: frame \<open>i\<close> is one of the frames the hand visits on its way from position
  \<open>h\<close> to position \<open>c\<close>, the frame after \<open>h\<close> first and \<open>c\<close> last; from \<open>h\<close> round to \<open>h\<close>
  again that is every frame.
\<close>

definition swept :: "FrameId \<Rightarrow> FrameId \<Rightarrow> FrameId \<Rightarrow> bool" where
  "swept h c i \<longleftrightarrow> (if h < c then h < i \<and> i \<le> c else h < i \<or> i \<le> c)"

text \<open>A frame the sweep cannot take when it visits it: valid, and referenced or pinned.\<close>

definition blocked :: "BufDesc \<Rightarrow> bool" where
  "blocked d \<longleftrightarrow> valid d \<and> (refbit d \<or> pinCnt d \<noteq> 0)"

text \<open>
  The condition under which the loop, started at position \<open>st\<close> and standing at the hand of
  \<open>s\<close>, throws \<open>BufferExceededException\<close>: every frame still to be visited before the hand
  is back at \<open>st\<close> is blocked; and if the frame at \<open>st\<close> is referenced, so that the loop goes
  round once more, every frame is blocked and the frames visited twice are pinned.
\<close>

definition sweep_fails :: "FrameId \<Rightarrow> BufMgr \<Rightarrow> bool" where
  "sweep_fails st s \<longleftrightarrow>
     (\<forall>i < numBufs s. swept (clockHand s) st i \<longrightarrow> blocked (bufDescTable s ! i)) \<and>
     (refbit (bufDescTable s ! st) \<longrightarrow>
        (\<forall>i < numBufs s. blocked (bufDescTable s ! i)) \<and>
        (\<forall>i < numBufs s. swept (clockHand s) st i \<longrightarrow> pinCnt (bufDescTable s ! i) \<noteq> 0))"

text \<open>
  \<open>passed c s m\<close>: \<open>m\<close> is \<open>s\<close> with the hand just before frame \<open>c\<close> and the reference bits
  of the frames between the hand of \<open>s\<close> and \<open>c\<close> cleared.
\<close>

definition passed :: "FrameId \<Rightarrow> BufMgr \<Rightarrow> BufMgr \<Rightarrow> bool" where
  "passed c s m \<longleftrightarrow>
     pool_ok m \<and> clockHand (advanceClock m) = c \<and> numBufs m = numBufs s \<and>
     bufPool m = bufPool s \<and> hashTable m = hashTable s \<and> files m = files s \<and> io m = io s \<and>
     (\<forall>i < numBufs s.
        bufDescTable m ! i =
          (if swept (clockHand s) c i \<and> i \<noteq> c
           then (bufDescTable s ! i)\<lparr>refbit := False\<rparr> else bufDescTable s ! i))"

subsection \<open>The result of \<open>flushFile\<close>\<close>

text \<open>The state a successful \<open>flushFile\<close> of file \<open>f\<close> over the frames \<open>is\<close> leaves.\<close>

definition flushed :: "FileId \<Rightarrow> FrameId list \<Rightarrow> BufMgr \<Rightarrow> BufMgr \<Rightarrow> bool" where
  "flushed f is s s' \<longleftrightarrow>
     numBufs s' = numBufs s \<and> clockHand s' = clockHand s \<and> bufPool s' = bufPool s \<and>
     length (bufDescTable s') = length (bufDescTable s) \<and>
     (\<forall>j < length (bufDescTable s).
        bufDescTable s' ! j =
          (if j \<in> set is \<and> filePtr (bufDescTable s ! j) = Some f
           then BufDesc_Clear (bufDescTable s ! j) else bufDescTable s ! j)) \<and>
     (\<forall>k. hashTable s' k =
          (if \<exists>j \<in> set is. filePtr (bufDescTable s ! j) = Some f \<and>
                 k = (f, pageNo (bufDescTable s ! j))
           then None else hashTable s k)) \<and>
     io s' = io s @ map (\<lambda>j. WritePage f (bufPool s ! j))
                      (filter (\<lambda>j. filePtr (bufDescTable s ! j) = Some f \<and>
                                    dirty (bufDescTable s ! j)) is)"

section \<open>Example states\<close>

text \<open>The files of the examples: each holds the pages 1 to 5.\<close>

definition ex_files :: "FileId \<Rightarrow> File" where
  "ex_files = (\<lambda>f. \<lparr>pages = (\<lambda>p. if 1 \<le> p \<and> p \<le> 5
                                      then Some \<lparr>page_number = p, contents = ''disk''\<rparr>
                                      else None),
                      next_page = 6\<rparr>)"

text \<open>
  A pool of three frames: frame 0 holds page 1 of file 0, pinned once; frame 1 holds page
  2 of file 0, unpinned and dirty, with content that differs from the file's; frame 2 is
  empty.
\<close>

definition ex_pool :: BufMgr where
  "ex_pool =
     \<lparr>bufDescTable =
        [\<lparr>filePtr = Some 0, pageNo = 1, frameNo = 0, pinCnt = 1, dirty = False,
          valid = True, refbit = False\<rparr>,
         \<lparr>filePtr = Some 0, pageNo = 2, frameNo = 1, pinCnt = 0, dirty = True,
          valid = True, refbit = False\<rparr>,
         \<lparr>filePtr = None, pageNo = 0, frameNo = 2, pinCnt = 0, dirty = False,
          valid = False, refbit = False\<rparr>],
      bufPool =
        [\<lparr>page_number = 1, contents = ''disk''\<rparr>, \<lparr>page_number = 2, contents = ''edit''\<rparr>,
         \<lparr>page_number = 0, contents = []\<rparr>],
      hashTable = [(0, 1) \<mapsto> 0, (0, 2) \<mapsto> 1],
      numBufs = 3,
      clockHand = 2,
      files = ex_files,
      io = []\<rparr>"

text \<open>
  The example pool with no page pinned, and the example pool with its empty frame left
  naming file 1: a state no method produces, in which \<open>flushFile\<close> meets a frame that
  claims a file but is not valid.
\<close>

definition ex_idle :: BufMgr where
  "ex_idle = ex_pool\<lparr>bufDescTable :=
     (bufDescTable ex_pool)[0 := (bufDescTable ex_pool ! 0)\<lparr>pinCnt := 0\<rparr>]\<rparr>"

definition ex_stale :: BufMgr where
  "ex_stale = ex_pool\<lparr>bufDescTable :=
     (bufDescTable ex_pool)[2 := (bufDescTable ex_pool ! 2)\<lparr>filePtr := Some 1\<rparr>]\<rparr>"

text \<open>
  A state reached from the constructor: page 2 of file 0 fetched into a pool of three
  frames and released with the dirty flag.
\<close>

definition ex_dirty :: BufMgr where
  "ex_dirty = snd (unPinPage 0 2 True (snd (readPage 0 2 (BufMgr_init 3 ex_files))))"

text \<open>
  Two states reached from the constructor with a pool of one frame: page 1 of file 0
  fetched and released, and page 1 of file 0 fetched twice (pinned, referenced).
\<close>

definition ex_one :: BufMgr where
  "ex_one = snd (unPinPage 0 1 False (snd (readPage 0 1 (BufMgr_init 1 ex_files))))"

definition ex_full :: BufMgr where
  "ex_full = snd (readPage 0 1 (snd (readPage 0 1 (BufMgr_init 1 ex_files))))"

text \<open>
  Two more states reached from the constructor. \<open>ex_three\<close>: a pool of three frames, pages
  1, 2 and 3 of file 0 fetched and still pinned. \<open>ex_second\<close>: a pool of two frames, pages 1
  and 2 fetched twice each, page 1 released twice: both frames referenced, frame 0
  unpinned, frame 1 pinned, the hand on frame 1.
\<close>

definition ex_three :: BufMgr where
  "ex_three =
     snd (readPage 0 3 (snd (readPage 0 2 (snd (readPage 0 1 (BufMgr_init 3 ex_files))))))"

definition ex_second :: BufMgr where
  "ex_second =
     snd (unPinPage 0 1 False (snd (unPinPage 0 1 False
       (snd (readPage 0 2 (snd (readPage 0 1
         (snd (readPage 0 2 (snd (readPage 0 1 (BufMgr_init 2 ex_files))))))))))))"

text \<open>
  A state reached from the constructor with a pool of two frames: page 1 of file 0 fetched
  twice and page 2 once, all pins released. Frame 0 (page 1) is referenced, frame 1
  (page 2) is not, both are valid and unpinned, and the hand is on frame 1.
\<close>

definition ex_chance :: BufMgr where
  "ex_chance =
     snd (unPinPage 0 2 False (snd (unPinPage 0 1 False (snd (unPinPage 0 1 False
       (snd (readPage 0 1 (snd (readPage 0 2 (snd (readPage 0 1 (BufMgr_init 2 ex_files))))))))))))"

section \<open>Properties\<close>

subsection \<open>Termination of the sweep\<close>

text \<open>
  Termination of the sweep: clearing a reference bit lowers the number of referenced valid
  frames, and skipping a pinned frame brings the hand closer to the starting position.
\<close>

lemma allocBuf_visit_Continue:
  assumes "allocBuf_visit starting s = (Continue, s')"
  shows "0 < numBufs s \<and> numBufs s' = numBufs s \<and> clockHand s' = (clockHand s + 1) mod numBufs s
    \<and> clockHand s' < length (bufDescTable s)
    \<and> ((valid (bufDescTable s ! clockHand s') \<and> refbit (bufDescTable s ! clockHand s')
          \<and> bufDescTable s' = (bufDescTable s)[clockHand s' := (bufDescTable s ! clockHand s')\<lparr>refbit := False\<rparr>])
        \<or> (bufDescTable s' = bufDescTable s \<and> clockHand s' \<noteq> starting))"
  using assms
  by (auto simp: allocBuf_visit_def advanceClock_def Let_def split: if_splits sum.splits option.splits)

lemma refcount_clear:
  assumes "c < length (bufDescTable s)" "valid (bufDescTable s ! c)" "refbit (bufDescTable s ! c)"
    and "bufDescTable s' = (bufDescTable s)[c := (bufDescTable s ! c)\<lparr>refbit := False\<rparr>]"
  shows "refcount s' < refcount s"
proof -
  let ?A = "{i. i < length (bufDescTable s) \<and> valid (bufDescTable s ! i) \<and> refbit (bufDescTable s ! i)}"
  have "{i. i < length (bufDescTable s') \<and> valid (bufDescTable s' ! i) \<and> refbit (bufDescTable s' ! i)} = ?A - {c}"
    using assms by (auto simp: nth_list_update)
  moreover have "c \<in> ?A" using assms by simp
  moreover have "finite ?A" by simp
  ultimately have "card {i. i < length (bufDescTable s') \<and> valid (bufDescTable s' ! i) \<and> refbit (bufDescTable s' ! i)} < card ?A"
    using card_Diff1_less[of ?A c] by presburger
  then show ?thesis unfolding refcount_def .
qed

lemma dist_arith:
  fixes st n h c :: nat
  assumes "st < n" "h < n" "c = (if h + 1 = n then 0 else h + 1)" "c \<noteq> st"
  shows "(if c < st then st - c else st + n - c) - 1 < (if h < st then st - h else st + n - h) - 1"
  using assms by (auto split: if_splits)

lemma hand_dist_step:
  assumes "starting < numBufs s" "numBufs s' = numBufs s"
    "clockHand s' = (clockHand s + 1) mod numBufs s" "clockHand s' \<noteq> starting"
  shows "hand_dist starting s' < hand_dist starting s"
proof -
  define n where "n = numBufs s"
  define h where "h = clockHand s mod n"
  define c where "c = clockHand s'"
  have hn: "h < n" using assms(1) by (simp add: h_def n_def)
  have "c = (h + 1) mod n" using assms(3) by (simp add: h_def c_def n_def mod_Suc_eq)
  then have c2: "c = (if h + 1 = n then 0 else h + 1)" using hn by (auto simp: mod_Suc)
  then have c3: "c mod n = c" using hn by auto
  have e1: "hand_dist starting s' = (if c < starting then starting - c else starting + n - c) - 1"
    using c3 assms(2) by (simp add: hand_dist_def Let_def c_def n_def)
  have e2: "hand_dist starting s = (if h < starting then starting - h else starting + n - h) - 1"
    by (simp add: hand_dist_def Let_def h_def n_def)
  have "starting < n" "c \<noteq> starting" using assms by (simp_all add: n_def c_def)
  then show ?thesis unfolding e1 e2 using hn c2 by (intro dist_arith)
qed

termination allocBuf_loop
proof (relation "measures [\<lambda>(st, s). refcount s, \<lambda>(st, s). hand_dist st s]")
  show "wf (measures [\<lambda>(st, s). refcount s, \<lambda>(st, s). hand_dist st s])" by simp
next
  fix starting s x s'
  assume a: "\<not> \<not> starting < numBufs s" "(x, s') = allocBuf_visit starting s" "x = Continue"
  then have v: "allocBuf_visit starting s = (Continue, s')" by simp
  note f = allocBuf_visit_Continue[OF v]
  show "((starting, s'), (starting, s)) \<in> measures [\<lambda>(st, s). refcount s, \<lambda>(st, s). hand_dist st s]"
  proof (cases "bufDescTable s' = bufDescTable s \<and> clockHand s' \<noteq> starting")
    case True
    then have "refcount s' = refcount s" by (simp add: refcount_def)
    moreover have "hand_dist starting s' < hand_dist starting s"
      using hand_dist_step[of starting s s'] a(1) f True by simp
    ultimately show ?thesis by simp
  next
    case False
    then have "refcount s' < refcount s" using f refcount_clear[of "clockHand s'" s s'] by blast
    then show ?thesis by simp
  qed
qed

subsection \<open>One visit of the sweep\<close>

declare allocBuf_loop.simps [simp del]

lemma BufDesc_Clear_simps [simp]:
  "valid (BufDesc_Clear d) = False" "filePtr (BufDesc_Clear d) = None"
  "pinCnt (BufDesc_Clear d) = 0" "dirty (BufDesc_Clear d) = False"
  "refbit (BufDesc_Clear d) = False" "frameNo (BufDesc_Clear d) = frameNo d"
  "pageNo (BufDesc_Clear d) = 0"
  "BufDesc_Clear (BufDesc_Clear d) = BufDesc_Clear d"
  by (simp_all add: BufDesc_Clear_def)

lemma BufDesc_Set_simps [simp]:
  "valid (BufDesc_Set f p d) = True" "filePtr (BufDesc_Set f p d) = Some f"
  "pinCnt (BufDesc_Set f p d) = 1" "dirty (BufDesc_Set f p d) = False"
  "refbit (BufDesc_Set f p d) = False" "frameNo (BufDesc_Set f p d) = frameNo d"
  "pageNo (BufDesc_Set f p d) = p"
  by (simp_all add: BufDesc_Set_def)

lemma advanceClock_simps [simp]:
  "bufDescTable (advanceClock s) = bufDescTable s" "bufPool (advanceClock s) = bufPool s"
  "hashTable (advanceClock s) = hashTable s" "numBufs (advanceClock s) = numBufs s"
  "files (advanceClock s) = files s" "io (advanceClock s) = io s"
  by (simp_all add: advanceClock_def)

lemma file_writePage_simps [simp]:
  "bufDescTable (file_writePage f pg s) = bufDescTable s" "bufPool (file_writePage f pg s) = bufPool s"
  "hashTable (file_writePage f pg s) = hashTable s" "numBufs (file_writePage f pg s) = numBufs s"
  "clockHand (file_writePage f pg s) = clockHand s" "io (file_writePage f pg s) = io s @ [WritePage f pg]"
  by (simp_all add: file_writePage_def)

lemma hand_in_pool: "pool_ok s \<Longrightarrow> clockHand (advanceClock s) < numBufs s"
  by (simp add: pool_ok_def advanceClock_def)

lemma visit_invalid:
  assumes "pool_ok s" "\<not> valid (bufDescTable s ! clockHand (advanceClock s))"
  shows "allocBuf_visit st s =
           (Found (frameNo (bufDescTable s ! clockHand (advanceClock s))), advanceClock s)"
  using assms hand_in_pool[OF assms(1)] by (simp add: allocBuf_visit_def pool_ok_def Let_def)

lemma visit_referenced:
  assumes "pool_ok s" "valid (bufDescTable s ! clockHand (advanceClock s))"
    "refbit (bufDescTable s ! clockHand (advanceClock s))"
  shows "allocBuf_visit st s =
           (Continue, (advanceClock s)\<lparr>bufDescTable := (bufDescTable s)
              [clockHand (advanceClock s) :=
                 (bufDescTable s ! clockHand (advanceClock s))\<lparr>refbit := False\<rparr>]\<rparr>)"
  using assms hand_in_pool[OF assms(1)] by (simp add: allocBuf_visit_def pool_ok_def Let_def)

lemma visit_pinned:
  assumes "pool_ok s" "valid (bufDescTable s ! clockHand (advanceClock s))"
    "\<not> refbit (bufDescTable s ! clockHand (advanceClock s))"
    "pinCnt (bufDescTable s ! clockHand (advanceClock s)) \<noteq> 0"
  shows "allocBuf_visit st s =
           (if st = clockHand (advanceClock s) then Throw BufferExceededException else Continue,
            advanceClock s)"
  using assms hand_in_pool[OF assms(1)] by (simp add: allocBuf_visit_def pool_ok_def Let_def)

lemma visit_victim:
  assumes "pool_ok s" "valid (bufDescTable s ! clockHand (advanceClock s))"
    "\<not> refbit (bufDescTable s ! clockHand (advanceClock s))"
    "pinCnt (bufDescTable s ! clockHand (advanceClock s)) = 0"
    "filePtr (bufDescTable s ! clockHand (advanceClock s)) = Some f"
    "hashTable s (f, pageNo (bufDescTable s ! clockHand (advanceClock s))) = Some j"
  shows "allocBuf_visit st s =
           (Found (frameNo (bufDescTable s ! clockHand (advanceClock s))),
            if dirty (bufDescTable s ! clockHand (advanceClock s))
            then file_writePage f (bufPool s ! clockHand (advanceClock s))
                   ((advanceClock s)\<lparr>hashTable :=
                      (hashTable s)((f, pageNo (bufDescTable s ! clockHand (advanceClock s))) := None)\<rparr>)
            else (advanceClock s)\<lparr>hashTable :=
                      (hashTable s)((f, pageNo (bufDescTable s ! clockHand (advanceClock s))) := None),
                    bufDescTable := (bufDescTable s)
                      [clockHand (advanceClock s) :=
                         BufDesc_Clear (bufDescTable s ! clockHand (advanceClock s))]\<rparr>)"
  using assms hand_in_pool[OF assms(1)]
  by (simp add: allocBuf_visit_def pool_ok_def Let_def ht_remove_def)

lemma visit_unindexed:
  assumes "pool_ok s" "valid (bufDescTable s ! clockHand (advanceClock s))"
    "\<not> refbit (bufDescTable s ! clockHand (advanceClock s))"
    "pinCnt (bufDescTable s ! clockHand (advanceClock s)) = 0"
    "\<forall>f. filePtr (bufDescTable s ! clockHand (advanceClock s)) = Some f \<longrightarrow>
         hashTable s (f, pageNo (bufDescTable s ! clockHand (advanceClock s))) = None"
  shows "allocBuf_visit st s = (Throw HashNotFoundException, advanceClock s)"
  using assms hand_in_pool[OF assms(1)]
  by (auto simp add: allocBuf_visit_def pool_ok_def Let_def ht_remove_def split: option.splits)

subsection \<open>Consistent states under single updates\<close>

lemma inv_pool_ok: "inv s \<Longrightarrow> pool_ok s"
  by (simp add: inv_def)

lemma inv_frameNo: "inv s \<Longrightarrow> i < numBufs s \<Longrightarrow> frameNo (bufDescTable s ! i) = i"
  by (simp add: inv_def)

lemma inv_indexed:
  "inv s \<Longrightarrow> i < numBufs s \<Longrightarrow> valid (bufDescTable s ! i) \<Longrightarrow>
     \<exists>f. filePtr (bufDescTable s ! i) = Some f \<and> hashTable s (f, pageNo (bufDescTable s ! i)) = Some i"
  unfolding inv_def by (metis option.exhaust)

lemma inv_keepI:
  assumes "inv s" "numBufs s' = numBufs s" "clockHand s' < numBufs s"
    "length (bufPool s') = numBufs s" "hashTable s' = hashTable s"
    "length (bufDescTable s') = numBufs s"
    "\<forall>i < numBufs s. valid (bufDescTable s' ! i) = valid (bufDescTable s ! i) \<and>
        filePtr (bufDescTable s' ! i) = filePtr (bufDescTable s ! i) \<and>
        pageNo (bufDescTable s' ! i) = pageNo (bufDescTable s ! i) \<and>
        frameNo (bufDescTable s' ! i) = frameNo (bufDescTable s ! i)"
  shows "inv s'"
proof -
  have b: "\<And>f p j. hashTable s (f, p) = Some j \<longleftrightarrow>
        j < numBufs s \<and> valid (bufDescTable s ! j) \<and> filePtr (bufDescTable s ! j) = Some f \<and>
        pageNo (bufDescTable s ! j) = p"
    using assms(1) unfolding inv_def by blast
  have "hashTable s' (f', p) = Some j \<longleftrightarrow>
        j < numBufs s' \<and> valid (bufDescTable s' ! j) \<and> filePtr (bufDescTable s' ! j) = Some f' \<and>
        pageNo (bufDescTable s' ! j) = p" for f' p j
    using assms(2-) b[of f' p j] by auto
  moreover have "pool_ok s'" using assms unfolding inv_def pool_ok_def by simp
  moreover have "\<forall>j < numBufs s'. frameNo (bufDescTable s' ! j) = j"
    using assms unfolding inv_def pool_ok_def by simp
  moreover have "\<forall>j < numBufs s'. valid (bufDescTable s' ! j) \<longleftrightarrow> filePtr (bufDescTable s' ! j) \<noteq> None"
    using assms unfolding inv_def pool_ok_def by simp
  ultimately show ?thesis unfolding inv_def by blast
qed

lemma inv_evictI:
  assumes "inv s" "i < numBufs s" "valid (bufDescTable s ! i)" "filePtr (bufDescTable s ! i) = Some f"
    "numBufs s' = numBufs s" "clockHand s' < numBufs s" "length (bufPool s') = numBufs s"
    "bufDescTable s' = (bufDescTable s)[i := BufDesc_Clear (bufDescTable s ! i)]"
    "hashTable s' = (hashTable s)((f, pageNo (bufDescTable s ! i)) := None)"
  shows "inv s'"
proof -
  have b: "\<And>f p j. hashTable s (f, p) = Some j \<longleftrightarrow>
        j < numBufs s \<and> valid (bufDescTable s ! j) \<and> filePtr (bufDescTable s ! j) = Some f \<and>
        pageNo (bufDescTable s ! j) = p"
    using assms(1) unfolding inv_def by blast
  have len: "length (bufDescTable s) = numBufs s" using assms(1) by (simp add: inv_def pool_ok_def)
  have "hashTable s' (f', p) = Some j \<longleftrightarrow>
        j < numBufs s' \<and> valid (bufDescTable s' ! j) \<and> filePtr (bufDescTable s' ! j) = Some f' \<and>
        pageNo (bufDescTable s' ! j) = p" for f' p j
  proof (cases "j = i")
    case True
    then show ?thesis using assms(2-) len b[of f' p i] by auto
  next
    case False
    then show ?thesis using assms(2-) len b[of f' p j] b[of f "pageNo (bufDescTable s ! i)" j]
        b[of f "pageNo (bufDescTable s ! i)" i]
      by (auto simp: nth_list_update)
  qed
  moreover have "pool_ok s'" using assms unfolding inv_def pool_ok_def by simp
  moreover have "\<forall>j < numBufs s'. frameNo (bufDescTable s' ! j) = j"
    using assms unfolding inv_def pool_ok_def by (simp add: nth_list_update)
  moreover have "\<forall>j < numBufs s'. valid (bufDescTable s' ! j) \<longleftrightarrow> filePtr (bufDescTable s' ! j) \<noteq> None"
    using assms unfolding inv_def pool_ok_def by (simp add: nth_list_update)
  ultimately show ?thesis unfolding inv_def by blast
qed

lemma inv_clearI:
  assumes "inv s" "i < numBufs s" "\<not> valid (bufDescTable s ! i)"
    "numBufs s' = numBufs s" "clockHand s' < numBufs s" "length (bufPool s') = numBufs s"
    "bufDescTable s' = (bufDescTable s)[i := BufDesc_Clear (bufDescTable s ! i)]"
    "hashTable s' = hashTable s"
  shows "inv s'"
proof -
  have b: "\<And>f p j. hashTable s (f, p) = Some j \<longleftrightarrow>
        j < numBufs s \<and> valid (bufDescTable s ! j) \<and> filePtr (bufDescTable s ! j) = Some f \<and>
        pageNo (bufDescTable s ! j) = p"
    using assms(1) unfolding inv_def by blast
  have len: "length (bufDescTable s) = numBufs s" using assms(1) by (simp add: inv_def pool_ok_def)
  have "hashTable s' (f', p) = Some j \<longleftrightarrow>
        j < numBufs s' \<and> valid (bufDescTable s' ! j) \<and> filePtr (bufDescTable s' ! j) = Some f' \<and>
        pageNo (bufDescTable s' ! j) = p" for f' p j
    using assms(2-) len b[of f' p j] by (cases "j = i") (auto simp: nth_list_update)
  moreover have "pool_ok s'" using assms unfolding inv_def pool_ok_def by simp
  moreover have "\<forall>j < numBufs s'. frameNo (bufDescTable s' ! j) = j"
    using assms unfolding inv_def pool_ok_def by (simp add: nth_list_update)
  moreover have "\<forall>j < numBufs s'. valid (bufDescTable s' ! j) \<longleftrightarrow> filePtr (bufDescTable s' ! j) \<noteq> None"
    using assms unfolding inv_def pool_ok_def by (simp add: nth_list_update)
  ultimately show ?thesis unfolding inv_def by blast
qed

lemma inv_installI:
  assumes "inv s" "i < numBufs s" "\<not> valid (bufDescTable s ! i)" "hashTable s (f, p) = None"
    "numBufs s' = numBufs s" "clockHand s' < numBufs s" "length (bufPool s') = numBufs s"
    "bufDescTable s' = (bufDescTable s)[i := BufDesc_Set f p (bufDescTable s ! i)]"
    "hashTable s' = (hashTable s)((f, p) \<mapsto> i)"
  shows "inv s'"
proof -
  have b: "\<And>f p j. hashTable s (f, p) = Some j \<longleftrightarrow>
        j < numBufs s \<and> valid (bufDescTable s ! j) \<and> filePtr (bufDescTable s ! j) = Some f \<and>
        pageNo (bufDescTable s ! j) = p"
    using assms(1) unfolding inv_def by blast
  have len: "length (bufDescTable s) = numBufs s" using assms(1) by (simp add: inv_def pool_ok_def)
  have "hashTable s' (f', p') = Some j \<longleftrightarrow>
        j < numBufs s' \<and> valid (bufDescTable s' ! j) \<and> filePtr (bufDescTable s' ! j) = Some f' \<and>
        pageNo (bufDescTable s' ! j) = p'" for f' p' j
  proof (cases "j = i")
    case True
    then show ?thesis using assms(2-) len b[of f' p' i] by auto
  next
    case False
    then show ?thesis using assms(2-) len b[of f' p' j] b[of f p j]
      by (auto simp: nth_list_update)
  qed
  moreover have "pool_ok s'" using assms unfolding inv_def pool_ok_def by simp
  moreover have "\<forall>j < numBufs s'. frameNo (bufDescTable s' ! j) = j"
    using assms unfolding inv_def pool_ok_def by (simp add: nth_list_update)
  moreover have "\<forall>j < numBufs s'. valid (bufDescTable s' ! j) \<longleftrightarrow> filePtr (bufDescTable s' ! j) \<noteq> None"
    using assms unfolding inv_def pool_ok_def by (simp add: nth_list_update)
  ultimately show ?thesis unfolding inv_def by blast
qed

subsection \<open>The sweep, slot by slot\<close>

lemma pool_ok_advance [simp]: "pool_ok s \<Longrightarrow> pool_ok (advanceClock s)"
  by (simp add: pool_ok_def advanceClock_def)

lemma pool_ok_desc [simp]:
  "pool_ok s \<Longrightarrow> pool_ok (s\<lparr>bufDescTable := (bufDescTable s)[i := d]\<rparr>)"
  by (simp add: pool_ok_def)

lemma loop_invalid:
  assumes "pool_ok s" "st < numBufs s" "\<not> valid (bufDescTable s ! clockHand (advanceClock s))"
  shows "allocBuf_loop st s =
           (Inr (frameNo (bufDescTable s ! clockHand (advanceClock s))), advanceClock s)"
  using assms by (simp add: allocBuf_loop.simps[of st s] visit_invalid)

lemma loop_referenced:
  assumes "pool_ok s" "st < numBufs s" "valid (bufDescTable s ! clockHand (advanceClock s))"
    "refbit (bufDescTable s ! clockHand (advanceClock s))"
  shows "allocBuf_loop st s =
           allocBuf_loop st ((advanceClock s)\<lparr>bufDescTable := (bufDescTable s)
              [clockHand (advanceClock s) :=
                 (bufDescTable s ! clockHand (advanceClock s))\<lparr>refbit := False\<rparr>]\<rparr>)"
  using assms by (simp add: allocBuf_loop.simps[of st s] visit_referenced)

lemma loop_pinned_start:
  assumes "pool_ok s" "st < numBufs s" "valid (bufDescTable s ! clockHand (advanceClock s))"
    "\<not> refbit (bufDescTable s ! clockHand (advanceClock s))"
    "pinCnt (bufDescTable s ! clockHand (advanceClock s)) \<noteq> 0"
    "st = clockHand (advanceClock s)"
  shows "allocBuf_loop st s = (Inl BufferExceededException, advanceClock s)"
  using assms(1-5) assms(6)[symmetric] by (simp add: allocBuf_loop.simps[of st s] visit_pinned)

lemma loop_pinned:
  assumes "pool_ok s" "st < numBufs s" "valid (bufDescTable s ! clockHand (advanceClock s))"
    "\<not> refbit (bufDescTable s ! clockHand (advanceClock s))"
    "pinCnt (bufDescTable s ! clockHand (advanceClock s)) \<noteq> 0"
    "st \<noteq> clockHand (advanceClock s)"
  shows "allocBuf_loop st s = allocBuf_loop st (advanceClock s)"
  using assms by (simp add: allocBuf_loop.simps[of st s] visit_pinned)

lemma loop_victim:
  assumes "pool_ok s" "st < numBufs s" "valid (bufDescTable s ! clockHand (advanceClock s))"
    "\<not> refbit (bufDescTable s ! clockHand (advanceClock s))"
    "pinCnt (bufDescTable s ! clockHand (advanceClock s)) = 0"
    "filePtr (bufDescTable s ! clockHand (advanceClock s)) = Some f"
    "hashTable s (f, pageNo (bufDescTable s ! clockHand (advanceClock s))) = Some j"
  shows "allocBuf_loop st s =
           (Inr (frameNo (bufDescTable s ! clockHand (advanceClock s))),
            if dirty (bufDescTable s ! clockHand (advanceClock s))
            then file_writePage f (bufPool s ! clockHand (advanceClock s))
                   ((advanceClock s)\<lparr>hashTable :=
                      (hashTable s)((f, pageNo (bufDescTable s ! clockHand (advanceClock s))) := None)\<rparr>)
            else (advanceClock s)\<lparr>hashTable :=
                      (hashTable s)((f, pageNo (bufDescTable s ! clockHand (advanceClock s))) := None),
                    bufDescTable := (bufDescTable s)
                      [clockHand (advanceClock s) :=
                         BufDesc_Clear (bufDescTable s ! clockHand (advanceClock s))]\<rparr>)"
  using assms(1,2) by (simp add: allocBuf_loop.simps[of st s] visit_victim[OF assms(1,3-7)])

lemma loop_unindexed:
  assumes "pool_ok s" "st < numBufs s" "valid (bufDescTable s ! clockHand (advanceClock s))"
    "\<not> refbit (bufDescTable s ! clockHand (advanceClock s))"
    "pinCnt (bufDescTable s ! clockHand (advanceClock s)) = 0"
    "\<forall>f. filePtr (bufDescTable s ! clockHand (advanceClock s)) = Some f \<longrightarrow>
         hashTable s (f, pageNo (bufDescTable s ! clockHand (advanceClock s))) = None"
  shows "allocBuf_loop st s = (Inl HashNotFoundException, advanceClock s)"
  using assms(1,2) by (simp add: allocBuf_loop.simps[of st s] visit_unindexed[OF assms(1,3-6)])

text \<open>
  Induction along the sweep: a property of the state under the hand holds if it holds
  where the loop ends and is carried back over every slot the loop passes.
\<close>

lemma sweep_induct [consumes 2, case_names invalid referenced pinned_start pinned unpinned]:
  assumes "pool_ok s" "st < numBufs s"
    and "\<And>s. pool_ok s \<Longrightarrow> st < numBufs s \<Longrightarrow> \<not> valid (bufDescTable s ! clockHand (advanceClock s)) \<Longrightarrow> P s"
    and "\<And>s. pool_ok s \<Longrightarrow> st < numBufs s \<Longrightarrow> valid (bufDescTable s ! clockHand (advanceClock s)) \<Longrightarrow>
            refbit (bufDescTable s ! clockHand (advanceClock s)) \<Longrightarrow>
            P ((advanceClock s)\<lparr>bufDescTable := (bufDescTable s)
              [clockHand (advanceClock s) :=
                 (bufDescTable s ! clockHand (advanceClock s))\<lparr>refbit := False\<rparr>]\<rparr>) \<Longrightarrow> P s"
    and "\<And>s. pool_ok s \<Longrightarrow> st < numBufs s \<Longrightarrow> valid (bufDescTable s ! clockHand (advanceClock s)) \<Longrightarrow>
            \<not> refbit (bufDescTable s ! clockHand (advanceClock s)) \<Longrightarrow>
            pinCnt (bufDescTable s ! clockHand (advanceClock s)) \<noteq> 0 \<Longrightarrow>
            st = clockHand (advanceClock s) \<Longrightarrow> P s"
    and "\<And>s. pool_ok s \<Longrightarrow> st < numBufs s \<Longrightarrow> valid (bufDescTable s ! clockHand (advanceClock s)) \<Longrightarrow>
            \<not> refbit (bufDescTable s ! clockHand (advanceClock s)) \<Longrightarrow>
            pinCnt (bufDescTable s ! clockHand (advanceClock s)) \<noteq> 0 \<Longrightarrow>
            st \<noteq> clockHand (advanceClock s) \<Longrightarrow> P (advanceClock s) \<Longrightarrow> P s"
    and "\<And>s. pool_ok s \<Longrightarrow> st < numBufs s \<Longrightarrow> valid (bufDescTable s ! clockHand (advanceClock s)) \<Longrightarrow>
            \<not> refbit (bufDescTable s ! clockHand (advanceClock s)) \<Longrightarrow>
            pinCnt (bufDescTable s ! clockHand (advanceClock s)) = 0 \<Longrightarrow> P s"
  shows "P s"
proof -
  have "st' = st \<Longrightarrow> pool_ok s \<Longrightarrow> st' < numBufs s \<Longrightarrow> P s" for st'
  proof (induction st' s rule: allocBuf_loop.induct)
    case (1 st' s)
    note ok = \<open>pool_ok s\<close> and st = \<open>st' < numBufs s\<close> and e = \<open>st' = st\<close>
    have st2: "st < numBufs s" using st e by simp
    let ?d = "bufDescTable s ! clockHand (advanceClock s)"
    show ?case
    proof (cases "valid ?d")
      case False
      then show ?thesis using assms(3) ok st2 by blast
    next
      case v: True
      show ?thesis
      proof (cases "refbit ?d")
        case True
        let ?s1 = "(advanceClock s)\<lparr>bufDescTable := (bufDescTable s)
                [clockHand (advanceClock s) := ?d\<lparr>refbit := False\<rparr>]\<rparr>"
        have "allocBuf_visit st' s = (Continue, ?s1)" by (rule visit_referenced[OF ok v True])
        moreover have "pool_ok ?s1" using ok by (simp add: pool_ok_def advanceClock_def)
        moreover have "st' < numBufs ?s1" using st by simp
        ultimately have "P ?s1" using "1.IH"[of Continue ?s1] st e by simp
        then show ?thesis using assms(4)[OF ok st2 v True] by blast
      next
        case r: False
        show ?thesis
        proof (cases "pinCnt ?d = 0")
          case True
          then show ?thesis using assms(7)[OF ok st2 v r] by blast
        next
          case p: False
          show ?thesis
          proof (cases "st = clockHand (advanceClock s)")
            case True
            then show ?thesis using assms(5)[OF ok st2 v r p] by blast
          next
            case False
            then have "allocBuf_visit st' s = (Continue, advanceClock s)"
              using visit_pinned[OF ok v r p, of st'] e by simp
            moreover have "pool_ok (advanceClock s)" using ok by simp
            moreover have "st' < numBufs (advanceClock s)" using st by simp
            ultimately have "P (advanceClock s)" using "1.IH"[of Continue "advanceClock s"] st e by simp
            then show ?thesis using assms(6)[OF ok st2 v r p False] by blast
          qed
        qed
      qed
    qed
  qed
  then show ?thesis using assms(1,2) by blast
qed

subsection \<open>Running the sweep to the slot that ends it\<close>

lemma refs_cleared_refl: "refs_cleared s s"
  by (simp add: refs_cleared_def)

lemma refs_cleared_trans:
  assumes "refs_cleared s t" "refs_cleared t u"
  shows "refs_cleared s u"
proof -
  have "bufDescTable u ! i = bufDescTable s ! i \<or>
        bufDescTable u ! i = (bufDescTable s ! i)\<lparr>refbit := False\<rparr>"
    if "i < length (bufDescTable s)" for i
  proof -
    have 1: "bufDescTable t ! i = bufDescTable s ! i \<or>
        bufDescTable t ! i = (bufDescTable s ! i)\<lparr>refbit := False\<rparr>"
      using assms(1) that by (simp add: refs_cleared_def)
    have 2: "bufDescTable u ! i = bufDescTable t ! i \<or>
        bufDescTable u ! i = (bufDescTable t ! i)\<lparr>refbit := False\<rparr>"
      using assms that by (simp add: refs_cleared_def)
    show ?thesis using 1 2 by auto
  qed
  then show ?thesis using assms by (simp add: refs_cleared_def)
qed

lemma refs_cleared_advance: "refs_cleared s (advanceClock s)"
  by (simp add: refs_cleared_def)

lemma refs_cleared_visit:
  "i < length (bufDescTable s) \<Longrightarrow>
   refs_cleared s ((advanceClock s)\<lparr>bufDescTable :=
      (bufDescTable s)[i := (bufDescTable s ! i)\<lparr>refbit := False\<rparr>]\<rparr>)"
  by (simp add: refs_cleared_def nth_list_update)

lemma refs_cleared_fields:
  assumes "refs_cleared s s'" "i < length (bufDescTable s)"
  shows "valid (bufDescTable s' ! i) = valid (bufDescTable s ! i)"
    "filePtr (bufDescTable s' ! i) = filePtr (bufDescTable s ! i)"
    "pageNo (bufDescTable s' ! i) = pageNo (bufDescTable s ! i)"
    "frameNo (bufDescTable s' ! i) = frameNo (bufDescTable s ! i)"
    "pinCnt (bufDescTable s' ! i) = pinCnt (bufDescTable s ! i)"
    "dirty (bufDescTable s' ! i) = dirty (bufDescTable s ! i)"
proof -
  have "bufDescTable s' ! i = bufDescTable s ! i \<or>
        bufDescTable s' ! i = (bufDescTable s ! i)\<lparr>refbit := False\<rparr>"
    using assms by (simp add: refs_cleared_def)
  then show "valid (bufDescTable s' ! i) = valid (bufDescTable s ! i)"
    "filePtr (bufDescTable s' ! i) = filePtr (bufDescTable s ! i)"
    "pageNo (bufDescTable s' ! i) = pageNo (bufDescTable s ! i)"
    "frameNo (bufDescTable s' ! i) = frameNo (bufDescTable s ! i)"
    "pinCnt (bufDescTable s' ! i) = pinCnt (bufDescTable s ! i)"
    "dirty (bufDescTable s' ! i) = dirty (bufDescTable s ! i)"
    by auto
qed

text \<open>
  The loop passes over slots, clearing reference bits, until it stands before a slot that
  ends it; it always gets there.
\<close>

lemma sweep_end:
  assumes "pool_ok s" "st < numBufs s"
  shows "\<exists>m. refs_cleared s m \<and> pool_ok m \<and> allocBuf_loop st s = allocBuf_loop st m \<and>
             sweep_stops st m"
  using assms
proof (induction rule: sweep_induct)
  case (invalid s)
  then show ?case using refs_cleared_refl[of s] by (auto simp: sweep_stops_def)
next
  case (referenced s)
  let ?c = "clockHand (advanceClock s)"
  let ?s1 = "(advanceClock s)\<lparr>bufDescTable := (bufDescTable s)
              [?c := (bufDescTable s ! ?c)\<lparr>refbit := False\<rparr>]\<rparr>"
  from referenced obtain m where m: "refs_cleared ?s1 m" "pool_ok m"
    "allocBuf_loop st ?s1 = allocBuf_loop st m" "sweep_stops st m" by blast
  have "?c < length (bufDescTable s)" using hand_in_pool[OF referenced(1)] referenced(1)
    by (simp add: pool_ok_def)
  then have "refs_cleared s m" using refs_cleared_trans[OF refs_cleared_visit m(1)] by blast
  moreover have "allocBuf_loop st s = allocBuf_loop st m"
    using loop_referenced[OF referenced(1-4)] m(3) by simp
  ultimately show ?case using m(2,4) by blast
next
  case (pinned_start s)
  then show ?case using refs_cleared_refl[of s] by (auto simp: sweep_stops_def)
next
  case (pinned s)
  from pinned obtain m where m: "refs_cleared (advanceClock s) m" "pool_ok m"
    "allocBuf_loop st (advanceClock s) = allocBuf_loop st m" "sweep_stops st m" by blast
  have "refs_cleared s m" using refs_cleared_trans[OF refs_cleared_advance m(1)] by blast
  moreover have "allocBuf_loop st s = allocBuf_loop st m"
    using loop_pinned[OF pinned(1-6)] m(3) by simp
  ultimately show ?case using m(2,4) by blast
next
  case (unpinned s)
  then show ?case using refs_cleared_refl[of s] by (auto simp: sweep_stops_def)
qed

text \<open>
  The four ways \<open>allocBuf\<close> ends, told from the state \<open>m\<close> in which the hand stands before
  the slot that ends the loop.
\<close>

lemma allocBuf_cases [consumes 1, case_names free full victim unindexed]:
  assumes "pool_ok s"
  obtains
    (free) m where "refs_cleared s m" "pool_ok m"
      "\<not> valid (bufDescTable m ! clockHand (advanceClock m))"
      "allocBuf s =
         (Inr (frameNo (bufDescTable m ! clockHand (advanceClock m))),
          (advanceClock m)\<lparr>bufDescTable := (bufDescTable m)
             [clockHand (advanceClock m) :=
                BufDesc_Clear (bufDescTable m ! clockHand (advanceClock m))]\<rparr>)"
  | (full) m where "refs_cleared s m" "pool_ok m"
      "valid (bufDescTable m ! clockHand (advanceClock m))"
      "\<not> refbit (bufDescTable m ! clockHand (advanceClock m))"
      "pinCnt (bufDescTable m ! clockHand (advanceClock m)) \<noteq> 0"
      "clockHand (advanceClock m) = clockHand s"
      "allocBuf s = (Inl BufferExceededException, advanceClock m)"
  | (victim) m f j where "refs_cleared s m" "pool_ok m"
      "valid (bufDescTable m ! clockHand (advanceClock m))"
      "\<not> refbit (bufDescTable m ! clockHand (advanceClock m))"
      "pinCnt (bufDescTable m ! clockHand (advanceClock m)) = 0"
      "filePtr (bufDescTable m ! clockHand (advanceClock m)) = Some f"
      "hashTable m (f, pageNo (bufDescTable m ! clockHand (advanceClock m))) = Some j"
      "allocBuf s =
         (Inr (frameNo (bufDescTable m ! clockHand (advanceClock m))),
          (if dirty (bufDescTable m ! clockHand (advanceClock m))
           then file_writePage f (bufPool m ! clockHand (advanceClock m)) (advanceClock m)
           else advanceClock m)
          \<lparr>hashTable :=
             (hashTable m)((f, pageNo (bufDescTable m ! clockHand (advanceClock m))) := None),
           bufDescTable := (bufDescTable m)
             [clockHand (advanceClock m) :=
                BufDesc_Clear (bufDescTable m ! clockHand (advanceClock m))]\<rparr>)"
  | (unindexed) m where "refs_cleared s m" "pool_ok m"
      "valid (bufDescTable m ! clockHand (advanceClock m))"
      "\<not> refbit (bufDescTable m ! clockHand (advanceClock m))"
      "pinCnt (bufDescTable m ! clockHand (advanceClock m)) = 0"
      "\<forall>f. filePtr (bufDescTable m ! clockHand (advanceClock m)) = Some f \<longrightarrow>
           hashTable m (f, pageNo (bufDescTable m ! clockHand (advanceClock m))) = None"
      "allocBuf s = (Inl HashNotFoundException, advanceClock m)"
proof -
  have st: "clockHand s < numBufs s" using assms by (simp add: pool_ok_def)
  obtain m where m: "refs_cleared s m" "pool_ok m"
    "allocBuf_loop (clockHand s) s = allocBuf_loop (clockHand s) m" "sweep_stops (clockHand s) m"
    using sweep_end[OF assms st] by blast
  have stm: "clockHand s < numBufs m" using m(1) st by (simp add: refs_cleared_def)
  let ?c = "clockHand (advanceClock m)"
  let ?d = "bufDescTable m ! ?c"
  have c: "?c < length (bufDescTable m)" using hand_in_pool[OF m(2)] m(2) by (simp add: pool_ok_def)
  show thesis
  proof (cases "valid ?d")
    case False
    have "allocBuf s = (Inr (frameNo ?d), (advanceClock m)\<lparr>bufDescTable := (bufDescTable m)[?c := BufDesc_Clear ?d]\<rparr>)"
      using loop_invalid[OF m(2) stm False] m(3) by (simp add: allocBuf_def)
    then show ?thesis using free[OF m(1,2) False] by blast
  next
    case v: True
    then have r: "\<not> refbit ?d" using m(4) by (auto simp: sweep_stops_def Let_def)
    show ?thesis
    proof (cases "pinCnt ?d = 0")
      case p: False
      then have e: "clockHand s = ?c" using m(4) v by (auto simp: sweep_stops_def Let_def)
      have "allocBuf s = (Inl BufferExceededException, advanceClock m)"
        using loop_pinned_start[OF m(2) stm v r p e] m(3) by (simp add: allocBuf_def)
      then show ?thesis using full[OF m(1,2) v r p e[symmetric]] by blast
    next
      case p: True
      show ?thesis
      proof (cases "\<exists>f j. filePtr ?d = Some f \<and> hashTable m (f, pageNo ?d) = Some j")
        case True
        then obtain f j where fj: "filePtr ?d = Some f" "hashTable m (f, pageNo ?d) = Some j" by blast
        have "allocBuf s =
         (Inr (frameNo ?d),
          (if dirty ?d then file_writePage f (bufPool m ! ?c) (advanceClock m) else advanceClock m)
          \<lparr>hashTable := (hashTable m)((f, pageNo ?d) := None),
           bufDescTable := (bufDescTable m)[?c := BufDesc_Clear ?d]\<rparr>)"
          using loop_victim[OF m(2) stm v r p fj] m(3) c
          by (simp add: allocBuf_def file_writePage_def)
        then show ?thesis using victim[OF m(1,2) v r p fj] by blast
      next
        case False
        then have u: "\<forall>f. filePtr ?d = Some f \<longrightarrow> hashTable m (f, pageNo ?d) = None" by auto
        have "allocBuf s = (Inl HashNotFoundException, advanceClock m)"
          using loop_unindexed[OF m(2) stm v r p u] m(3) by (simp add: allocBuf_def)
        then show ?thesis using unindexed[OF m(1,2) v r p u] by blast
      qed
    qed
  qed
qed

lemma inv_refs_cleared:
  assumes "inv s" "refs_cleared s m" "pool_ok m"
  shows "inv m"
proof (rule inv_keepI[OF assms(1)])
  have len: "length (bufDescTable s) = numBufs s" using assms(1) by (simp add: inv_def pool_ok_def)
  show "numBufs m = numBufs s" "hashTable m = hashTable s"
    using assms(2) by (simp_all add: refs_cleared_def)
  then show "clockHand m < numBufs s" "length (bufPool m) = numBufs s"
    "length (bufDescTable m) = numBufs s"
    using assms(3) by (simp_all add: pool_ok_def)
  show "\<forall>i<numBufs s.
       valid (bufDescTable m ! i) = valid (bufDescTable s ! i) \<and>
       filePtr (bufDescTable m ! i) = filePtr (bufDescTable s ! i) \<and>
       pageNo (bufDescTable m ! i) = pageNo (bufDescTable s ! i) \<and>
       frameNo (bufDescTable m ! i) = frameNo (bufDescTable s ! i)"
    using refs_cleared_fields[OF assms(2)] len by simp
qed

lemma inv_advance: "inv s \<Longrightarrow> inv (advanceClock s)"
  using inv_refs_cleared[OF _ refs_cleared_advance] pool_ok_advance inv_pool_ok by blast

text \<open>
  \<open>allocBuf\<close> keeps the state consistent whether it returns or throws; the frame it returns
  is inside the pool and not valid; it throws nothing but \<open>BufferExceededException\<close>; and
  it adds nothing to the hash table.
\<close>

lemma allocBuf_inv:
  assumes "inv s"
  shows "inv (snd (allocBuf s))"
    and "numBufs (snd (allocBuf s)) = numBufs s"
    and "fst (allocBuf s) = Inr fr \<Longrightarrow>
           fr < numBufs s \<and> \<not> valid (bufDescTable (snd (allocBuf s)) ! fr)"
    and "fst (allocBuf s) = Inl e \<Longrightarrow> e = BufferExceededException"
    and "hashTable s k = None \<Longrightarrow> hashTable (snd (allocBuf s)) k = None"
proof -
  have "inv (snd (allocBuf s)) \<and> numBufs (snd (allocBuf s)) = numBufs s \<and>
    (fst (allocBuf s) = Inr fr \<longrightarrow> fr < numBufs s \<and> \<not> valid (bufDescTable (snd (allocBuf s)) ! fr)) \<and>
    (fst (allocBuf s) = Inl e \<longrightarrow> e = BufferExceededException) \<and>
    (hashTable s k = None \<longrightarrow> hashTable (snd (allocBuf s)) k = None)"
    using inv_pool_ok[OF assms]
  proof (cases rule: allocBuf_cases)
    case (free m)
    let ?c = "clockHand (advanceClock m)"
    have im: "inv m" by (rule inv_refs_cleared[OF assms free(1,2)])
    have n: "numBufs m = numBufs s" "hashTable m = hashTable s"
      using free(1) by (simp_all add: refs_cleared_def)
    have c: "?c < numBufs m" by (rule hand_in_pool[OF free(2)])
    have len: "length (bufDescTable m) = numBufs m" using free(2) by (simp add: pool_ok_def)
    have "inv (snd (allocBuf s))"
      by (rule inv_clearI[OF im c free(3)]) (use free(2,4) c in \<open>simp_all add: pool_ok_def\<close>)
    then show ?thesis using free(4) c n len inv_frameNo[OF im c] by simp
  next
    case (full m)
    have im: "inv m" by (rule inv_refs_cleared[OF assms full(1,2)])
    have n: "numBufs m = numBufs s" "hashTable m = hashTable s"
      using full(1) by (simp_all add: refs_cleared_def)
    show ?thesis using full(7) inv_advance[OF im] n by simp
  next
    case (victim m f j)
    let ?c = "clockHand (advanceClock m)"
    have im: "inv m" by (rule inv_refs_cleared[OF assms victim(1,2)])
    have n: "numBufs m = numBufs s" "hashTable m = hashTable s"
      using victim(1) by (simp_all add: refs_cleared_def)
    have c: "?c < numBufs m" by (rule hand_in_pool[OF victim(2)])
    have len: "length (bufDescTable m) = numBufs m" using victim(2) by (simp add: pool_ok_def)
    have "inv (snd (allocBuf s))"
      by (rule inv_evictI[OF im c victim(3,6)]) (use victim(2,8) c in \<open>simp_all add: pool_ok_def\<close>)
    then show ?thesis using victim(8) c n len inv_frameNo[OF im c] by simp
  next
    case (unindexed m)
    have im: "inv m" by (rule inv_refs_cleared[OF assms unindexed(1,2)])
    have c: "clockHand (advanceClock m) < numBufs m" by (rule hand_in_pool[OF unindexed(2)])
    show ?thesis using inv_indexed[OF im c unindexed(3)] unindexed(6) by auto
  qed
  then show "inv (snd (allocBuf s))"
    and "numBufs (snd (allocBuf s)) = numBufs s"
    and "fst (allocBuf s) = Inr fr \<Longrightarrow>
           fr < numBufs s \<and> \<not> valid (bufDescTable (snd (allocBuf s)) ! fr)"
    and "fst (allocBuf s) = Inl e \<Longrightarrow> e = BufferExceededException"
    and "hashTable s k = None \<Longrightarrow> hashTable (snd (allocBuf s)) k = None"
    by simp_all
qed

subsection \<open>Every method keeps the state consistent\<close>

lemma inv_io [simp]: "inv (s\<lparr>io := x\<rparr>) = inv s"
  by (simp add: inv_def pool_ok_def)

lemma inv_files [simp]: "inv (s\<lparr>files := x\<rparr>) = inv s"
  by (simp add: inv_def pool_ok_def)

lemma inv_bufPool [simp]: "inv (s\<lparr>bufPool := (bufPool s)[i := pg]\<rparr>) = inv s"
  by (simp add: inv_def pool_ok_def)

lemma inv_file_writePage [simp]: "inv (file_writePage f pg s) = inv s"
  by (simp add: file_writePage_def)

lemma inv_file_deletePage [simp]: "inv (file_deletePage f p s) = inv s"
  by (simp add: file_deletePage_def)

lemma inv_file_allocatePage [simp]: "inv (snd (file_allocatePage f s)) = inv s"
  by (simp add: file_allocatePage_def Let_def)

lemma inv_file_readPage [simp]: "inv (snd (file_readPage f p s)) = inv s"
  by (simp add: file_readPage_def split: option.splits)

lemma file_readPage_simps [simp]:
  "bufDescTable (snd (file_readPage f p s)) = bufDescTable s"
  "bufPool (snd (file_readPage f p s)) = bufPool s"
  "hashTable (snd (file_readPage f p s)) = hashTable s"
  "numBufs (snd (file_readPage f p s)) = numBufs s"
  "clockHand (snd (file_readPage f p s)) = clockHand s"
  by (simp_all add: file_readPage_def split: option.splits)

lemma file_allocatePage_simps [simp]:
  "bufDescTable (snd (file_allocatePage f s)) = bufDescTable s"
  "bufPool (snd (file_allocatePage f s)) = bufPool s"
  "hashTable (snd (file_allocatePage f s)) = hashTable s"
  "numBufs (snd (file_allocatePage f s)) = numBufs s"
  "clockHand (snd (file_allocatePage f s)) = clockHand s"
  by (simp_all add: file_allocatePage_def Let_def)

lemma inv_lengths:
  "inv s \<Longrightarrow> length (bufDescTable s) = numBufs s \<and> length (bufPool s) = numBufs s \<and>
     clockHand s < numBufs s"
  by (simp add: inv_def pool_ok_def)

lemma inv_hit: "inv s \<Longrightarrow> hashTable s (f, p) = Some i \<Longrightarrow>
  i < numBufs s \<and> valid (bufDescTable s ! i) \<and> filePtr (bufDescTable s ! i) = Some f \<and>
  pageNo (bufDescTable s ! i) = p"
  unfolding inv_def by blast

text \<open>Loading a page into a frame that \<open>allocBuf\<close> has handed out.\<close>

lemma install_inv:
  assumes "inv s1" "fid < numBufs s1" "\<not> valid (bufDescTable s1 ! fid)"
  shows "inv (snd (case ht_insert (hashTable s1) f p fid of
                     Inl e' \<Rightarrow> (Inl e', s1\<lparr>bufPool := (bufPool s1)[fid := pg]\<rparr>)
                   | Inr h \<Rightarrow>
                       (Inr r,
                        s1\<lparr>bufPool := (bufPool s1)[fid := pg], hashTable := h,
                           bufDescTable := (bufDescTable s1)
                             [fid := BufDesc_Set f p (bufDescTable s1 ! fid)]\<rparr>)))"
proof (cases "hashTable s1 (f, p)")
  case None
  have "inv (s1\<lparr>bufPool := (bufPool s1)[fid := pg], hashTable := (hashTable s1)((f, p) \<mapsto> fid),
                           bufDescTable := (bufDescTable s1)
                             [fid := BufDesc_Set f p (bufDescTable s1 ! fid)]\<rparr>)"
    by (rule inv_installI[OF assms None]) (use inv_lengths[OF assms(1)] in simp_all)
  then show ?thesis using None by (simp add: ht_insert_def)
next
  case (Some j)
  then show ?thesis using assms(1) by (simp add: ht_insert_def)
qed

lemma readPage_inv:
  assumes "inv s"
  shows "inv (snd (readPage f p s))"
proof (cases "hashTable s (f, p)")
  case (Some i)
  have i: "i < numBufs s" using inv_hit[OF assms Some] by simp
  have "inv (s\<lparr>bufDescTable := (bufDescTable s)
          [i := (bufDescTable s ! i)\<lparr>refbit := True, pinCnt := pinCnt (bufDescTable s ! i) + 1\<rparr>]\<rparr>)"
    by (rule inv_keepI[OF assms]) (use inv_lengths[OF assms] i in \<open>simp_all add: nth_list_update\<close>)
  then show ?thesis using Some i inv_lengths[OF assms] by (simp add: readPage_def ht_lookup_def Let_def)
next
  case None
  obtain r s1 where a: "allocBuf s = (r, s1)" by (cases "allocBuf s")
  have i1: "inv s1" "numBufs s1 = numBufs s" using allocBuf_inv(1,2)[OF assms] a by simp_all
  show ?thesis
  proof (cases r)
    case (Inl e)
    then show ?thesis using None a i1 by (simp add: readPage_def ht_lookup_def)
  next
    case (Inr fid)
    have fr: "fid < numBufs s1" "\<not> valid (bufDescTable s1 ! fid)"
      using allocBuf_inv(3)[OF assms, of fid] a Inr i1 by simp_all
    obtain r2 s2 where rd: "file_readPage f p s1 = (r2, s2)" by (cases "file_readPage f p s1")
    have i2: "inv s2" "numBufs s2 = numBufs s1" "bufDescTable s2 = bufDescTable s1"
      using inv_file_readPage[of f p s1] file_readPage_simps[of f p s1] rd i1 by simp_all
    show ?thesis
    proof (cases r2)
      case (Inl e)
      then show ?thesis using None a Inr rd i2 by (simp add: readPage_def ht_lookup_def)
    next
      case (Inr tPage)
      have "inv (snd (case ht_insert (hashTable s2) f p fid of
                     Inl e' \<Rightarrow> (Inl e', s2\<lparr>bufPool := (bufPool s2)[fid := tPage]\<rparr>)
                   | Inr h \<Rightarrow>
                       (Inr fid,
                        s2\<lparr>bufPool := (bufPool s2)[fid := tPage], hashTable := h,
                           bufDescTable := (bufDescTable s2)
                             [fid := BufDesc_Set f p (bufDescTable s2 ! fid)]\<rparr>)))"
        by (rule install_inv) (use i2 fr in simp_all)
      then show ?thesis using None a \<open>r = Inr fid\<close> rd Inr fr i2 inv_lengths[OF i2(1)]
        by (simp add: readPage_def ht_lookup_def Let_def split: sum.splits)
    qed
  qed
qed

lemma unPinPage_inv:
  assumes "inv s"
  shows "inv (snd (unPinPage f p markDirty s))"
proof (cases "hashTable s (f, p)")
  case None
  then show ?thesis using assms by (simp add: unPinPage_def ht_lookup_def)
next
  case (Some i)
  have i: "i < numBufs s" using inv_hit[OF assms Some] by simp
  have "inv (s\<lparr>bufDescTable := (bufDescTable s)
          [i := (bufDescTable s ! i)\<lparr>pinCnt := pinCnt (bufDescTable s ! i) - 1,
                  dirty := (if markDirty then True else dirty (bufDescTable s ! i))\<rparr>]\<rparr>)"
    by (rule inv_keepI[OF assms]) (use inv_lengths[OF assms] i in \<open>simp_all add: nth_list_update\<close>)
  then show ?thesis using Some i assms inv_lengths[OF assms]
    by (simp add: unPinPage_def ht_lookup_def Let_def)
qed

lemma allocPage_inv:
  assumes "inv s"
  shows "inv (snd (allocPage f s))"
proof -
  obtain newPage s0 where al: "file_allocatePage f s = (newPage, s0)"
    by (cases "file_allocatePage f s")
  have i0: "inv s0" using inv_file_allocatePage[of f s] al assms by simp
  obtain r s1 where a: "allocBuf s0 = (r, s1)" by (cases "allocBuf s0")
  have i1: "inv s1" "numBufs s1 = numBufs s0" using allocBuf_inv(1,2)[OF i0] a by simp_all
  show ?thesis
  proof (cases r)
    case (Inl e)
    then show ?thesis using al a i1 by (simp add: allocPage_def)
  next
    case (Inr fid)
    have fr: "fid < numBufs s1" "\<not> valid (bufDescTable s1 ! fid)"
      using allocBuf_inv(3)[OF i0, of fid] a Inr i1 by simp_all
    have "inv (snd (case ht_insert (hashTable s1) f (page_number newPage) fid of
                     Inl e' \<Rightarrow> (Inl e', s1\<lparr>bufPool := (bufPool s1)[fid := newPage]\<rparr>)
                   | Inr h \<Rightarrow>
                       (Inr (page_number newPage, fid),
                        s1\<lparr>bufPool := (bufPool s1)[fid := newPage], hashTable := h,
                           bufDescTable := (bufDescTable s1)
                             [fid := BufDesc_Set f (page_number newPage) (bufDescTable s1 ! fid)]\<rparr>)))"
      by (rule install_inv) (use i1 fr in simp_all)
    then show ?thesis using al a Inr fr inv_lengths[OF i1(1)]
      by (simp add: allocPage_def Let_def split: sum.splits)
  qed
qed

subsection \<open>One frame of \<open>flushFile\<close> and of \<open>disposePage\<close>\<close>

lemma BufDesc_Clear_dirty [simp]: "BufDesc_Clear (d\<lparr>dirty := b\<rparr>) = BufDesc_Clear d"
  by (simp add: BufDesc_Clear_def)

lemma flushFile_frame_other:
  "i < length (bufDescTable s) \<Longrightarrow> i < length (bufPool s) \<Longrightarrow>
   filePtr (bufDescTable s ! i) \<noteq> Some f \<Longrightarrow> flushFile_frame f i s = (Inr (), s)"
  by (simp add: flushFile_frame_def)

lemma flushFile_frame_pinned:
  "i < length (bufDescTable s) \<Longrightarrow> i < length (bufPool s) \<Longrightarrow>
   filePtr (bufDescTable s ! i) = Some f \<Longrightarrow> pinCnt (bufDescTable s ! i) \<noteq> 0 \<Longrightarrow>
   flushFile_frame f i s = (Inl PagePinnedException, s)"
  by (simp add: flushFile_frame_def)

lemma flushFile_frame_invalid:
  "i < length (bufDescTable s) \<Longrightarrow> i < length (bufPool s) \<Longrightarrow>
   filePtr (bufDescTable s ! i) = Some f \<Longrightarrow> pinCnt (bufDescTable s ! i) = 0 \<Longrightarrow>
   \<not> valid (bufDescTable s ! i) \<Longrightarrow>
   flushFile_frame f i s = (Inl BadBufferException, s)"
  by (simp add: flushFile_frame_def)

lemma flushFile_frame_flushed:
  assumes "i < length (bufDescTable s)" "i < length (bufPool s)"
    "filePtr (bufDescTable s ! i) = Some f" "pinCnt (bufDescTable s ! i) = 0"
    "valid (bufDescTable s ! i)" "hashTable s (f, pageNo (bufDescTable s ! i)) = Some j"
  shows "flushFile_frame f i s =
           (Inr (),
            (if dirty (bufDescTable s ! i) then file_writePage f (bufPool s ! i) s else s)
            \<lparr>hashTable := (hashTable s)((f, pageNo (bufDescTable s ! i)) := None),
             bufDescTable := (bufDescTable s)[i := BufDesc_Clear (bufDescTable s ! i)]\<rparr>)"
  using assms by (simp add: flushFile_frame_def Let_def ht_remove_def file_writePage_def)

lemma disposePage_frame_other:
  "i < length (bufDescTable s) \<Longrightarrow>
   filePtr (bufDescTable s ! i) \<noteq> Some f \<or> pageNo (bufDescTable s ! i) \<noteq> p \<Longrightarrow>
   disposePage_frame f p i s = (Inr (), s)"
  by (auto simp add: disposePage_frame_def Let_def)

lemma disposePage_frame_pinned:
  "i < length (bufDescTable s) \<Longrightarrow>
   filePtr (bufDescTable s ! i) = Some f \<Longrightarrow> pageNo (bufDescTable s ! i) = p \<Longrightarrow>
   0 < pinCnt (bufDescTable s ! i) \<Longrightarrow>
   disposePage_frame f p i s = (Inl PagePinnedException, s)"
  by (simp add: disposePage_frame_def)

lemma disposePage_frame_dropped:
  "i < length (bufDescTable s) \<Longrightarrow>
   filePtr (bufDescTable s ! i) = Some f \<Longrightarrow> pageNo (bufDescTable s ! i) = p \<Longrightarrow>
   pinCnt (bufDescTable s ! i) = 0 \<Longrightarrow> hashTable s (f, p) = Some j \<Longrightarrow>
   disposePage_frame f p i s =
     (Inr (), s\<lparr>bufDescTable := (bufDescTable s)[i := BufDesc_Clear (bufDescTable s ! i)],
                hashTable := (hashTable s)((f, p) := None)\<rparr>)"
  by (simp add: disposePage_frame_def Let_def ht_remove_def)

lemma flushFile_frame_inv:
  assumes "inv s" "i < numBufs s"
  shows "inv (snd (flushFile_frame f i s)) \<and> numBufs (snd (flushFile_frame f i s)) = numBufs s"
proof -
  let ?d = "bufDescTable s ! i"
  note len = inv_lengths[OF assms(1)]
  have il: "i < length (bufDescTable s)" "i < length (bufPool s)" using len assms(2) by simp_all
  consider (other) "filePtr ?d \<noteq> Some f" | (pinned) "filePtr ?d = Some f" "pinCnt ?d \<noteq> 0"
    | (flushed) "filePtr ?d = Some f" "pinCnt ?d = 0" by blast
  then show ?thesis
  proof cases
    case other
    then show ?thesis using flushFile_frame_other[OF il] assms(1) by simp
  next
    case pinned
    then show ?thesis using flushFile_frame_pinned[OF il] assms(1) by simp
  next
    case flushed
    have v: "valid ?d" using assms flushed(1) unfolding inv_def by simp
    obtain g where g: "filePtr ?d = Some g" "hashTable s (g, pageNo ?d) = Some i"
      using inv_indexed[OF assms v] by blast
    then have h: "hashTable s (f, pageNo ?d) = Some i" using flushed(1) by simp
    note eq = flushFile_frame_flushed[OF il flushed v h]
    have "inv (snd (flushFile_frame f i s))"
      by (rule inv_evictI[OF assms v flushed(1)]) (use eq len in \<open>simp_all\<close>)
    then show ?thesis using eq by simp
  qed
qed

lemma flushFile_frames_inv:
  "inv s \<Longrightarrow> \<forall>i \<in> set is. i < numBufs s \<Longrightarrow>
     inv (snd (flushFile_frames f is s)) \<and> numBufs (snd (flushFile_frames f is s)) = numBufs s"
proof (induction "is" arbitrary: s)
  case Nil
  then show ?case by simp
next
  case (Cons i "is")
  obtain r s1 where fr: "flushFile_frame f i s = (r, s1)" by (cases "flushFile_frame f i s")
  have s1: "inv s1" "numBufs s1 = numBufs s"
    using flushFile_frame_inv[OF Cons.prems(1), of i f] Cons.prems(2) fr by simp_all
  show ?case
  proof (cases r)
    case (Inl e)
    then show ?thesis using fr s1 by simp
  next
    case (Inr u)
    then show ?thesis using fr s1 Cons.IH[OF s1(1)] Cons.prems(2) by simp
  qed
qed

lemma flushFile_inv: "inv s \<Longrightarrow> inv (snd (flushFile f s))"
  using flushFile_frames_inv[of s "[0..<numBufs s]" f] by (simp add: flushFile_def)

lemma disposePage_frame_inv:
  assumes "inv s" "i < numBufs s"
  shows "inv (snd (disposePage_frame f p i s)) \<and>
         numBufs (snd (disposePage_frame f p i s)) = numBufs s"
proof -
  let ?d = "bufDescTable s ! i"
  note len = inv_lengths[OF assms(1)]
  have il: "i < length (bufDescTable s)" using len assms(2) by simp
  consider (other) "filePtr ?d \<noteq> Some f \<or> pageNo ?d \<noteq> p"
    | (pinned) "filePtr ?d = Some f" "pageNo ?d = p" "0 < pinCnt ?d"
    | (dropped) "filePtr ?d = Some f" "pageNo ?d = p" "pinCnt ?d = 0" by auto
  then show ?thesis
  proof cases
    case other
    then show ?thesis using disposePage_frame_other[OF il] assms(1) by simp
  next
    case pinned
    then show ?thesis using disposePage_frame_pinned[OF il] assms(1) by simp
  next
    case dropped
    have v: "valid ?d" using assms dropped(1) unfolding inv_def by simp
    obtain g where g: "filePtr ?d = Some g" "hashTable s (g, pageNo ?d) = Some i"
      using inv_indexed[OF assms v] by blast
    then have h: "hashTable s (f, p) = Some i" using dropped(1,2) by simp
    note eq = disposePage_frame_dropped[OF il dropped h]
    have "inv (snd (disposePage_frame f p i s))"
      by (rule inv_evictI[OF assms v dropped(1)]) (use eq len dropped(2) in \<open>simp_all\<close>)
    then show ?thesis using eq by simp
  qed
qed

lemma disposePage_frames_inv:
  "inv s \<Longrightarrow> \<forall>i \<in> set is. i < numBufs s \<Longrightarrow>
     inv (snd (disposePage_frames f p is s)) \<and>
     numBufs (snd (disposePage_frames f p is s)) = numBufs s"
proof (induction "is" arbitrary: s)
  case Nil
  then show ?case by simp
next
  case (Cons i "is")
  obtain r s1 where fr: "disposePage_frame f p i s = (r, s1)"
    by (cases "disposePage_frame f p i s")
  have s1: "inv s1" "numBufs s1 = numBufs s"
    using disposePage_frame_inv[OF Cons.prems(1), of i f p] Cons.prems(2) fr by simp_all
  show ?case
  proof (cases r)
    case (Inl e)
    then show ?thesis using fr s1 by simp
  next
    case (Inr u)
    then show ?thesis using fr s1 Cons.IH[OF s1(1)] Cons.prems(2) by simp
  qed
qed

lemma disposePage_inv:
  assumes "inv s"
  shows "inv (snd (disposePage f p s))"
proof -
  obtain r s1 where fr: "disposePage_frames f p [0..<numBufs s] s = (r, s1)"
    by (cases "disposePage_frames f p [0..<numBufs s] s")
  have "inv s1" using disposePage_frames_inv[OF assms, of "[0..<numBufs s]" f p] fr by simp
  then show ?thesis using fr by (cases r) (simp_all add: disposePage_def)
qed

lemma inv_unique: "inv s \<Longrightarrow> unique_frames s"
proof -
  assume i: "inv s"
  have "a = b" if "a < numBufs s" "b < numBufs s" "valid (bufDescTable s ! a)"
    "valid (bufDescTable s ! b)" "filePtr (bufDescTable s ! a) = filePtr (bufDescTable s ! b)"
    "pageNo (bufDescTable s ! a) = pageNo (bufDescTable s ! b)" for a b
    using inv_indexed[OF i that(1,3)] inv_indexed[OF i that(2,4)] that(5,6) by auto
  then show ?thesis unfolding unique_frames_def by blast
qed

lemma inv_init: "0 < bufs \<Longrightarrow> inv (BufMgr_init bufs fs)"
  by (auto simp add: inv_def pool_ok_def BufMgr_init_def)

lemma inv_index_exact: "inv s \<Longrightarrow> index_exact s"
  unfolding inv_def index_exact_def by blast

subsection \<open>The loops of \<open>disposePage\<close> and \<open>flushFile\<close>\<close>

lemma disposePage_frames_append:
  "disposePage_frames f p (xs @ ys) s =
     (case disposePage_frames f p xs s of
        (Inl e, s') \<Rightarrow> (Inl e, s')
      | (Inr u, s') \<Rightarrow> disposePage_frames f p ys s')"
  by (induction xs arbitrary: s) (auto split: prod.splits sum.splits)

lemma disposePage_frames_none:
  "\<forall>i \<in> set is. i < length (bufDescTable s) \<and>
      (filePtr (bufDescTable s ! i) \<noteq> Some f \<or> pageNo (bufDescTable s ! i) \<noteq> p) \<Longrightarrow>
   disposePage_frames f p is s = (Inr (), s)"
  by (induction "is") (auto simp: disposePage_frame_other)

lemma upt_split: "i < n \<Longrightarrow> [0..<n] = [0..<i] @ i # [Suc i..<n]"
  by (metis le_add1 less_imp_add_positive less_or_eq_imp_le plus_nat.add_0 upt_add_eq_append upt_conv_Cons)

text \<open>In a consistent state only the frame the hash table names can hold the identity.\<close>

lemma inv_only_frame:
  assumes "inv s" "j < numBufs s" "filePtr (bufDescTable s ! j) = Some f"
    "pageNo (bufDescTable s ! j) = p"
  shows "hashTable s (f, p) = Some j"
proof -
  have "valid (bufDescTable s ! j)" using assms unfolding inv_def by simp
  then show ?thesis using inv_indexed[OF assms(1,2)] assms(3,4) by auto
qed

lemma disposePage_frames_cached:
  assumes "inv s" "hashTable s (f, p) = Some i"
  shows "disposePage_frames f p [0..<numBufs s] s =
           (if 0 < pinCnt (bufDescTable s ! i) then (Inl PagePinnedException, s)
            else (Inr (), s\<lparr>bufDescTable := (bufDescTable s)[i := BufDesc_Clear (bufDescTable s ! i)],
                           hashTable := (hashTable s)((f, p) := None)\<rparr>))"
proof -
  note hit = inv_hit[OF assms]
  note len = inv_lengths[OF assms(1)]
  have il: "i < length (bufDescTable s)" using hit len by simp
  have other: "filePtr (bufDescTable s ! j) \<noteq> Some f \<or> pageNo (bufDescTable s ! j) \<noteq> p"
    if "j < numBufs s" "j \<noteq> i" for j
    using inv_only_frame[OF assms(1) that(1), of f p] assms(2) that(2) by auto
  have pre: "disposePage_frames f p [0..<i] s = (Inr (), s)"
    by (rule disposePage_frames_none) (use other hit len in auto)
  show ?thesis
  proof (cases "0 < pinCnt (bufDescTable s ! i)")
    case True
    then show ?thesis
      using upt_split[of i "numBufs s"] hit pre disposePage_frame_pinned[OF il, of f p]
      by (simp add: disposePage_frames_append)
  next
    case False
    let ?s1 = "s\<lparr>bufDescTable := (bufDescTable s)[i := BufDesc_Clear (bufDescTable s ! i)],
                           hashTable := (hashTable s)((f, p) := None)\<rparr>"
    have at: "disposePage_frame f p i s = (Inr (), ?s1)"
      using disposePage_frame_dropped[OF il _ _ _ assms(2)] hit False by simp
    have post: "disposePage_frames f p [Suc i..<numBufs s] ?s1 = (Inr (), ?s1)"
      by (rule disposePage_frames_none) (use other len in \<open>auto simp: nth_list_update\<close>)
    show ?thesis
      using upt_split[of i "numBufs s"] hit pre at post False
      by (simp add: disposePage_frames_append)
  qed
qed

lemma disposePage_frames_absent:
  assumes "inv s" "hashTable s (f, p) = None"
  shows "disposePage_frames f p [0..<numBufs s] s = (Inr (), s)"
proof (rule disposePage_frames_none, rule ballI)
  fix j assume "j \<in> set [0..<numBufs s]"
  then have j: "j < numBufs s" by simp
  then show "j < length (bufDescTable s) \<and>
      (filePtr (bufDescTable s ! j) \<noteq> Some f \<or> pageNo (bufDescTable s ! j) \<noteq> p)"
    using inv_only_frame[OF assms(1) j, of f p] assms(2) inv_lengths[OF assms(1)] by auto
qed

lemma inv_indexed_for: "inv s \<Longrightarrow> indexed_for f s"
  using inv_only_frame[of s _ f] unfolding indexed_for_def by (simp add: inv_pool_ok)

lemma flushFile_frames_append:
  "flushFile_frames f (xs @ ys) s =
     (case flushFile_frames f xs s of
        (Inl e, s') \<Rightarrow> (Inl e, s')
      | (Inr u, s') \<Rightarrow> flushFile_frames f ys s')"
  by (induction xs arbitrary: s) (auto split: prod.splits sum.splits)

lemma flushFile_frames_flushed:
  assumes "indexed_for f s" "distinct is" "\<forall>j \<in> set is. j < numBufs s"
    "\<forall>j \<in> set is. filePtr (bufDescTable s ! j) = Some f \<longrightarrow>
        pinCnt (bufDescTable s ! j) = 0 \<and> valid (bufDescTable s ! j)"
  shows "fst (flushFile_frames f is s) = Inr () \<and> flushed f is s (snd (flushFile_frames f is s))"
  using assms
proof (induction "is" arbitrary: s)
  case Nil
  then show ?case by (simp add: flushed_def)
next
  case (Cons i "is")
  let ?d = "bufDescTable s ! i"
  have ok: "pool_ok s" using Cons.prems(1) by (simp add: indexed_for_def)
  have i: "i < numBufs s" using Cons.prems(3) by simp
  have il: "i < length (bufDescTable s)" "i < length (bufPool s)"
    using ok i by (simp_all add: pool_ok_def)
  have ni: "i \<notin> set is" "distinct is" using Cons.prems(2) by simp_all
  show ?case
  proof (cases "filePtr ?d = Some f")
    case False
    have "fst (flushFile_frames f is s) = Inr () \<and> flushed f is s (snd (flushFile_frames f is s))"
      by (rule Cons.IH) (use Cons.prems ni in simp_all)
    then show ?thesis using flushFile_frame_other[OF il False] False
      by (auto simp: flushed_def)
  next
    case True
    have pv: "pinCnt ?d = 0" "valid ?d" using Cons.prems(4) True by simp_all
    have h: "hashTable s (f, pageNo ?d) = Some i"
      using Cons.prems(1) i pv True by (simp add: indexed_for_def)
    let ?s1 = "(if dirty ?d then file_writePage f (bufPool s ! i) s else s)
            \<lparr>hashTable := (hashTable s)((f, pageNo ?d) := None),
             bufDescTable := (bufDescTable s)[i := BufDesc_Clear ?d]\<rparr>"
    note eq = flushFile_frame_flushed[OF il True pv h]
    have s1: "numBufs ?s1 = numBufs s" "clockHand ?s1 = clockHand s" "bufPool ?s1 = bufPool s"
      "bufDescTable ?s1 = (bufDescTable s)[i := BufDesc_Clear ?d]"
      "hashTable ?s1 = (hashTable s)((f, pageNo ?d) := None)"
      "io ?s1 = io s @ (if dirty ?d then [WritePage f (bufPool s ! i)] else [])"
      by simp_all
    have other: "pageNo (bufDescTable s ! j) \<noteq> pageNo ?d"
      if "j < numBufs s" "j \<noteq> i" "valid (bufDescTable s ! j)" "filePtr (bufDescTable s ! j) = Some f" for j
      using Cons.prems(1) that h unfolding indexed_for_def by fastforce
    have ix: "indexed_for f ?s1"
      unfolding indexed_for_def
    proof (intro conjI allI impI)
      show "pool_ok ?s1" using ok by (simp add: pool_ok_def)
    next
      fix j assume j: "j < numBufs ?s1"
        and v: "valid (bufDescTable ?s1 ! j) \<and> filePtr (bufDescTable ?s1 ! j) = Some f"
      have ji: "j \<noteq> i" using v il by (auto simp: s1)
      then have same: "bufDescTable ?s1 ! j = bufDescTable s ! j" by (simp add: s1)
      have "hashTable s (f, pageNo (bufDescTable s ! j)) = Some j"
        using Cons.prems(1) j v same unfolding indexed_for_def by (simp add: s1)
      moreover have "pageNo (bufDescTable s ! j) \<noteq> pageNo ?d"
        using other[of j] j ji v same by (simp add: s1)
      ultimately show "hashTable ?s1 (f, pageNo (bufDescTable ?s1 ! j)) = Some j"
        using same by (simp add: s1)
    qed
    have rest: "\<forall>j\<in>set is. bufDescTable ?s1 ! j = bufDescTable s ! j"
    proof
      fix j assume "j \<in> set is"
      then have "j \<noteq> i" using ni(1) by auto
      then show "bufDescTable ?s1 ! j = bufDescTable s ! j" by (simp add: s1)
    qed
    have ih: "fst (flushFile_frames f is ?s1) = Inr () \<and>
              flushed f is ?s1 (snd (flushFile_frames f is ?s1))"
      by (rule Cons.IH[OF ix ni(2)]) (use Cons.prems(3,4) rest in \<open>simp_all add: s1(1)\<close>)
    let ?s' = "snd (flushFile_frames f is ?s1)"
    have fl: "flushed f is ?s1 ?s'" using ih by simp
    have "flushed f (i # is) s ?s'"
      unfolding flushed_def
    proof (intro conjI allI impI)
      show "numBufs ?s' = numBufs s" "clockHand ?s' = clockHand s" "bufPool ?s' = bufPool s"
        "length (bufDescTable ?s') = length (bufDescTable s)"
        using fl unfolding flushed_def by (simp_all add: s1)
    next
      fix j assume j: "j < length (bufDescTable s)"
      have "bufDescTable ?s' ! j =
          (if j \<in> set is \<and> filePtr (bufDescTable ?s1 ! j) = Some f
           then BufDesc_Clear (bufDescTable ?s1 ! j) else bufDescTable ?s1 ! j)"
        using fl j unfolding flushed_def by (simp add: s1)
      then show "bufDescTable ?s' ! j =
          (if j \<in> set (i # is) \<and> filePtr (bufDescTable s ! j) = Some f
           then BufDesc_Clear (bufDescTable s ! j) else bufDescTable s ! j)"
        using ni(1) True il j by (cases "j = i") (auto simp: s1 nth_list_update)
    next
      fix k
      have "hashTable ?s' k =
          (if \<exists>j \<in> set is. filePtr (bufDescTable ?s1 ! j) = Some f \<and>
                 k = (f, pageNo (bufDescTable ?s1 ! j))
           then None else hashTable ?s1 k)"
        using fl unfolding flushed_def by blast
      moreover have "(\<exists>j \<in> set is. filePtr (bufDescTable ?s1 ! j) = Some f \<and>
                 k = (f, pageNo (bufDescTable ?s1 ! j))) =
            (\<exists>j \<in> set is. filePtr (bufDescTable s ! j) = Some f \<and>
                 k = (f, pageNo (bufDescTable s ! j)))"
        using rest by auto
      ultimately show "hashTable ?s' k =
          (if \<exists>j \<in> set (i # is). filePtr (bufDescTable s ! j) = Some f \<and>
                 k = (f, pageNo (bufDescTable s ! j))
           then None else hashTable s k)"
        using True by (auto simp: s1)
    next
      have "io ?s' = io ?s1 @ map (\<lambda>j. WritePage f (bufPool ?s1 ! j))
                      (filter (\<lambda>j. filePtr (bufDescTable ?s1 ! j) = Some f \<and>
                                    dirty (bufDescTable ?s1 ! j)) is)"
        using fl unfolding flushed_def by blast
      moreover have "filter (\<lambda>j. filePtr (bufDescTable ?s1 ! j) = Some f \<and>
                                    dirty (bufDescTable ?s1 ! j)) is =
           filter (\<lambda>j. filePtr (bufDescTable s ! j) = Some f \<and> dirty (bufDescTable s ! j)) is"
        using rest by (intro filter_cong) auto
      ultimately show "io ?s' = io s @ map (\<lambda>j. WritePage f (bufPool s ! j))
                      (filter (\<lambda>j. filePtr (bufDescTable s ! j) = Some f \<and>
                                    dirty (bufDescTable s ! j)) (i # is))"
        using True by (simp add: s1)
    qed
    then show ?thesis using eq ih by simp
  qed
qed

lemma flushFile_frames_none:
  "\<forall>j \<in> set is. j < length (bufDescTable s) \<and> j < length (bufPool s) \<and>
      filePtr (bufDescTable s ! j) \<noteq> Some f \<Longrightarrow>
   flushFile_frames f is s = (Inr (), s)"
  by (induction "is") (auto simp: flushFile_frame_other)

lemma flushFile_first_offender:
  assumes "indexed_for f s" "i < numBufs s" "filePtr (bufDescTable s ! i) = Some f"
    "pinCnt (bufDescTable s ! i) \<noteq> 0 \<or> \<not> valid (bufDescTable s ! i)"
    "\<forall>j < i. filePtr (bufDescTable s ! j) = Some f \<longrightarrow>
        pinCnt (bufDescTable s ! j) = 0 \<and> valid (bufDescTable s ! j)"
  shows "fst (flushFile f s) =
           Inl (if pinCnt (bufDescTable s ! i) \<noteq> 0 then PagePinnedException
                else BadBufferException)"
proof -
  have ok: "pool_ok s" using assms(1) by (simp add: indexed_for_def)
  obtain r s1 where eq0: "flushFile_frames f [0..<i] s = (r, s1)"
    by (cases "flushFile_frames f [0..<i] s")
  have "fst (flushFile_frames f [0..<i] s) = Inr () \<and>
        flushed f [0..<i] s (snd (flushFile_frames f [0..<i] s))"
    by (rule flushFile_frames_flushed[OF assms(1)]) (use assms(2,5) in auto)
  then have eq: "flushFile_frames f [0..<i] s = (Inr (), s1)" and pre: "flushed f [0..<i] s s1"
    using eq0 by simp_all
  have il: "i < length (bufDescTable s)" using ok assms(2) by (simp add: pool_ok_def)
  have same: "bufDescTable s1 ! i = bufDescTable s ! i"
    "i < length (bufDescTable s1)" "i < length (bufPool s1)"
    using pre il ok assms(2) unfolding flushed_def by (simp_all add: pool_ok_def)
  have at: "fst (flushFile_frame f i s1) =
           Inl (if pinCnt (bufDescTable s ! i) \<noteq> 0 then PagePinnedException
                else BadBufferException)"
    using flushFile_frame_pinned[OF same(2,3), of f] flushFile_frame_invalid[OF same(2,3), of f]
      assms(3,4) same(1)
    by auto
  have "flushFile f s = flushFile_frames f ([0..<i] @ i # [Suc i..<numBufs s]) s"
    by (simp only: flushFile_def upt_split[OF assms(2), symmetric])
  then have "flushFile f s =
      (case flushFile_frame f i s1 of
         (Inl e, s') \<Rightarrow> (Inl e, s')
       | (Inr u, s') \<Rightarrow> flushFile_frames f [Suc i..<numBufs s] s')"
    by (simp add: flushFile_frames_append eq)
  then show ?thesis using at
    by (cases "flushFile_frame f i s1") auto
qed

subsection \<open>What \<open>allocBuf\<close> leaves behind\<close>

lemma refs_cleared_advance_right: "refs_cleared s m \<Longrightarrow> refs_cleared s (advanceClock m)"
  using refs_cleared_trans[OF _ refs_cleared_advance] by blast

text \<open>A sweep that finds the pool full changes reference bits only.\<close>

lemma allocBuf_full:
  assumes "pool_ok s" "fst (allocBuf s) = Inl BufferExceededException"
  shows "refs_cleared s (snd (allocBuf s)) \<and> clockHand (snd (allocBuf s)) = clockHand s"
  using assms(1)
proof (cases rule: allocBuf_cases)
  case (free m)
  then show ?thesis using assms(2) by simp
next
  case (full m)
  then show ?thesis using refs_cleared_advance_right[OF full(1)] by simp
next
  case (victim m f j)
  then show ?thesis using assms(2) by simp
next
  case (unindexed m)
  then show ?thesis using assms(2) by simp
qed

text \<open>
  A frame that \<open>allocBuf\<close> returns and that was valid and dirty has been written to its
  file, as the only file call, with the content it had; that content is still in place.
\<close>

lemma allocBuf_dirty_victim:
  assumes "inv s" "fst (allocBuf s) = Inr fr" "valid (bufDescTable s ! fr)"
    "dirty (bufDescTable s ! fr)" "filePtr (bufDescTable s ! fr) = Some f"
  shows "io (snd (allocBuf s)) = io s @ [WritePage f (bufPool s ! fr)] \<and>
         bufPool (snd (allocBuf s)) = bufPool s"
  using inv_pool_ok[OF assms(1)]
proof (cases rule: allocBuf_cases)
  case (free m)
  let ?c = "clockHand (advanceClock m)"
  have im: "inv m" by (rule inv_refs_cleared[OF assms(1) free(1,2)])
  have c: "?c < numBufs m" by (rule hand_in_pool[OF free(2)])
  have n: "numBufs m = numBufs s" using free(1) by (simp add: refs_cleared_def)
  have "fr = ?c" using free(4) assms(2) inv_frameNo[OF im c] by simp
  then have "valid (bufDescTable m ! ?c)"
    using refs_cleared_fields(1)[OF free(1), of ?c] assms(3) c n inv_lengths[OF assms(1)] by simp
  then show ?thesis using free(3) by simp
next
  case (full m)
  then show ?thesis using assms(2) by simp
next
  case (victim m g j)
  let ?c = "clockHand (advanceClock m)"
  have im: "inv m" by (rule inv_refs_cleared[OF assms(1) victim(1,2)])
  have c: "?c < numBufs m" by (rule hand_in_pool[OF victim(2)])
  have n: "numBufs m = numBufs s" "bufPool m = bufPool s" "io m = io s"
    using victim(1) by (simp_all add: refs_cleared_def)
  have cl: "?c < length (bufDescTable s)" using c n inv_lengths[OF assms(1)] by simp
  have fr: "fr = ?c" using victim(8) assms(2) inv_frameNo[OF im c] by simp
  have "dirty (bufDescTable m ! ?c)" "g = f"
    using refs_cleared_fields(2,6)[OF victim(1) cl] assms(4,5) fr victim(6) by simp_all
  then show ?thesis using victim(8) fr n by simp
next
  case (unindexed m)
  then show ?thesis using assms(2) by simp
qed

lemma readPage_miss_io:
  assumes "hashTable s (f, p) = None" "allocBuf s = (Inr fid, s1)"
  shows "io (snd (readPage f p s)) = io s1 @ [ReadPage f p]"
  using assms
  by (simp add: readPage_def ht_lookup_def file_readPage_def ht_insert_def Let_def
      split: option.splits)

lemma allocPage_io:
  "io (snd (allocPage f s)) = io (snd (allocBuf (snd (file_allocatePage f s))))"
  by (simp add: allocPage_def ht_insert_def Let_def split: prod.splits sum.splits option.splits)

subsection \<open>What a failing method leaves behind\<close>

lemma unPinPage_fail_unchanged:
  "fst (unPinPage f p markDirty s) = Inl e \<Longrightarrow> snd (unPinPage f p markDirty s) = s"
  by (auto simp: unPinPage_def ht_lookup_def Let_def split: option.splits if_splits)

lemma disposePage_fail_unchanged:
  assumes "inv s" "fst (disposePage f p s) = Inl e"
  shows "snd (disposePage f p s) = s \<and> e = PagePinnedException"
proof (cases "hashTable s (f, p)")
  case None
  then show ?thesis
    using disposePage_frames_absent[OF assms(1) None] assms(2) by (simp add: disposePage_def)
next
  case (Some i)
  then show ?thesis
    using disposePage_frames_cached[OF assms(1) Some] assms(2)
    by (simp add: disposePage_def split: if_splits)
qed

lemma readPage_full_unchanged:
  assumes "inv s" "fst (readPage f p s) = Inl BufferExceededException"
  shows "refs_cleared s (snd (readPage f p s)) \<and> clockHand (snd (readPage f p s)) = clockHand s"
proof (cases "hashTable s (f, p)")
  case (Some i)
  then show ?thesis
    using inv_hit[OF assms(1) Some] inv_lengths[OF assms(1)] assms(2)
    by (simp add: readPage_def ht_lookup_def Let_def)
next
  case None
  obtain r s1 where a: "allocBuf s = (r, s1)" by (cases "allocBuf s")
  show ?thesis
  proof (cases r)
    case (Inl e)
    then have "readPage f p s = (Inl e, s1)" using None a by (simp add: readPage_def ht_lookup_def)
    then show ?thesis using allocBuf_full[OF inv_pool_ok[OF assms(1)]] a Inl assms(2) by simp
  next
    case (Inr fid)
    then show ?thesis using None a assms(2)
      by (simp add: readPage_def ht_lookup_def file_readPage_def ht_insert_def Let_def
          split: option.splits if_splits)
  qed
qed

lemma allocPage_full_unchanged:
  assumes "inv s" "fst (allocPage f s) = Inl BufferExceededException"
  shows "refs_cleared (snd (file_allocatePage f s)) (snd (allocPage f s)) \<and>
         clockHand (snd (allocPage f s)) = clockHand s"
proof -
  obtain pg s0 where al: "file_allocatePage f s = (pg, s0)" by (cases "file_allocatePage f s")
  have s0: "snd (file_allocatePage f s) = s0" using al by simp
  have i0: "inv s0" using assms(1) inv_file_allocatePage[of f s] s0 by simp
  have h0: "clockHand s0 = clockHand s" using file_allocatePage_simps(5)[of f s] s0 by simp
  obtain r s1 where a: "allocBuf s0 = (r, s1)" by (cases "allocBuf s0")
  have "refs_cleared s0 (snd (allocPage f s)) \<and> clockHand (snd (allocPage f s)) = clockHand s0"
  proof (cases r)
    case (Inl e)
    then have "allocPage f s = (Inl e, s1)" using al a by (simp add: allocPage_def)
    then show ?thesis using allocBuf_full[OF inv_pool_ok[OF i0]] a Inl assms(2) by simp
  next
    case (Inr fid)
    then show ?thesis using al a assms(2)
      by (simp add: allocPage_def ht_insert_def Let_def split: option.splits if_splits)
  qed
  then show ?thesis using s0 h0 by simp
qed

text \<open>
  A \<open>flushFile\<close> that throws has flushed the frames before the one it throws at, and nothing
  else.
\<close>

lemma flushFile_offender_state:
  assumes "indexed_for f s" "i < numBufs s" "filePtr (bufDescTable s ! i) = Some f"
    "pinCnt (bufDescTable s ! i) \<noteq> 0 \<or> \<not> valid (bufDescTable s ! i)"
    "\<forall>j < i. filePtr (bufDescTable s ! j) = Some f \<longrightarrow>
        pinCnt (bufDescTable s ! j) = 0 \<and> valid (bufDescTable s ! j)"
  shows "flushed f [0..<i] s (snd (flushFile f s))"
proof -
  have ok: "pool_ok s" using assms(1) by (simp add: indexed_for_def)
  obtain r s1 where eq0: "flushFile_frames f [0..<i] s = (r, s1)"
    by (cases "flushFile_frames f [0..<i] s")
  have "fst (flushFile_frames f [0..<i] s) = Inr () \<and>
        flushed f [0..<i] s (snd (flushFile_frames f [0..<i] s))"
    by (rule flushFile_frames_flushed[OF assms(1)]) (use assms(2,5) in auto)
  then have eq: "flushFile_frames f [0..<i] s = (Inr (), s1)" and pre: "flushed f [0..<i] s s1"
    using eq0 by simp_all
  have il: "i < length (bufDescTable s)" using ok assms(2) by (simp add: pool_ok_def)
  have same: "bufDescTable s1 ! i = bufDescTable s ! i"
    "i < length (bufDescTable s1)" "i < length (bufPool s1)"
    using pre il ok assms(2) unfolding flushed_def by (simp_all add: pool_ok_def)
  have at: "snd (flushFile_frame f i s1) = s1 \<and> (\<exists>e. fst (flushFile_frame f i s1) = Inl e)"
  proof (cases "pinCnt (bufDescTable s ! i) = 0")
    case True
    then show ?thesis
      using flushFile_frame_invalid[OF same(2,3), of f] assms(3,4) same(1) by simp
  next
    case False
    then show ?thesis
      using flushFile_frame_pinned[OF same(2,3), of f] assms(3) same(1) by simp
  qed
  have "flushFile f s = flushFile_frames f ([0..<i] @ i # [Suc i..<numBufs s]) s"
    by (simp only: flushFile_def upt_split[OF assms(2), symmetric])
  then have "flushFile f s =
      (case flushFile_frame f i s1 of
         (Inl e, s') \<Rightarrow> (Inl e, s')
       | (Inr u, s') \<Rightarrow> flushFile_frames f [Suc i..<numBufs s] s')"
    by (simp add: flushFile_frames_append eq)
  then have "snd (flushFile f s) = s1" using at
    by (cases "flushFile_frame f i s1") auto
  then show ?thesis using pre by simp
qed

subsection \<open>The order of the sweep\<close>

lemma next_hand:
  "pool_ok s \<Longrightarrow>
   clockHand (advanceClock s) = (if clockHand s + 1 = numBufs s then 0 else clockHand s + 1)"
  by (auto simp: pool_ok_def advanceClock_def mod_Suc)

lemma swept_self [simp]: "swept h h i"
  by (auto simp: swept_def)

lemma swept_first:
  assumes "pool_ok s" "x < numBufs s"
  shows "swept (clockHand s) x (clockHand (advanceClock s))"
  using assms next_hand[OF assms(1)] by (auto simp: swept_def pool_ok_def)

lemma swept_only_first:
  assumes "pool_ok s" "i < numBufs s"
  shows "swept (clockHand s) (clockHand (advanceClock s)) i \<longleftrightarrow> i = clockHand (advanceClock s)"
  using assms next_hand[OF assms(1)] by (auto simp: swept_def pool_ok_def)

lemma swept_rest:
  assumes "pool_ok s" "i < numBufs s" "x < numBufs s" "clockHand (advanceClock s) \<noteq> x"
  shows "swept (clockHand (advanceClock s)) x i \<longleftrightarrow>
           swept (clockHand s) x i \<and> i \<noteq> clockHand (advanceClock s)"
  using assms next_hand[OF assms(1)] by (auto simp: swept_def pool_ok_def split: if_splits)

lemma refbit_False_id: "\<not> refbit d \<Longrightarrow> d\<lparr>refbit := False\<rparr> = d"
  by (cases d) simp

subsection \<open>When the sweep finds the pool full\<close>

lemma sweep_fails_step:
  assumes "pool_ok s" "st < numBufs s"
    and c: "c = clockHand (advanceClock s)"
    and b: "blocked (bufDescTable s ! c)"
    and s1: "numBufs s1 = numBufs s" "clockHand s1 = c"
      "bufDescTable s1 = (bufDescTable s)[c := (bufDescTable s ! c)\<lparr>refbit := False\<rparr>]"
    and cont: "c = st \<longrightarrow> refbit (bufDescTable s ! c)"
  shows "sweep_fails st s1 \<longleftrightarrow> sweep_fails st s"
proof -
  let ?n = "numBufs s" and ?h = "clockHand s" and ?d = "bufDescTable s"
  have cn: "c < ?n" using hand_in_pool[OF assms(1)] c by simp
  have len: "length ?d = ?n" using assms(1) by (simp add: pool_ok_def)
  have d1: "bufDescTable s1 ! i = (if i = c then (?d ! c)\<lparr>refbit := False\<rparr> else ?d ! i)"
    if "i < ?n" for i using that len s1(3) by (simp add: nth_list_update)
  have b1: "blocked (bufDescTable s1 ! i) = (if i = c then pinCnt (?d ! c) \<noteq> 0 else blocked (?d ! i))"
    if "i < ?n" for i using d1[OF that] b by (simp add: blocked_def)
  have p1: "pinCnt (bufDescTable s1 ! i) = pinCnt (?d ! i)" if "i < ?n" for i
    using d1[OF that] by simp
  have r1: "refbit (bufDescTable s1 ! st) = (if st = c then False else refbit (?d ! st))"
    using d1[OF assms(2)] by simp
  show ?thesis
  proof (cases "c = st")
    case True
    have sw: "swept ?h st i \<longleftrightarrow> i = st" if "i < ?n" for i
      using swept_only_first[OF assms(1) that] c True by simp
    have ref: "refbit (?d ! st)" using cont True by simp
    have L: "sweep_fails st s1 \<longleftrightarrow> (\<forall>i < ?n. blocked (bufDescTable s1 ! i))"
      unfolding sweep_fails_def using r1 True s1(1,2) by simp
    have R: "sweep_fails st s \<longleftrightarrow> (\<forall>i < ?n. blocked (?d ! i)) \<and> pinCnt (?d ! st) \<noteq> 0"
      unfolding sweep_fails_def using ref sw assms(2) by auto
    have "(\<forall>i < ?n. blocked (bufDescTable s1 ! i)) \<longleftrightarrow>
          (\<forall>i < ?n. blocked (?d ! i)) \<and> pinCnt (?d ! st) \<noteq> 0"
      using b1 b True cn by (metis (full_types))
    then show ?thesis using L R by simp
  next
    case False
    have sw: "swept c st i \<longleftrightarrow> swept ?h st i \<and> i \<noteq> c" if "i < ?n" for i
      using swept_rest[OF assms(1) that assms(2)] c False by simp
    have first: "swept ?h st c" using swept_first[OF assms(1,2)] c by simp
    have r: "refbit (bufDescTable s1 ! st) = refbit (?d ! st)" using r1 False by auto
    have A: "(\<forall>i < ?n. swept c st i \<longrightarrow> blocked (bufDescTable s1 ! i)) \<longleftrightarrow>
             (\<forall>i < ?n. swept ?h st i \<longrightarrow> blocked (?d ! i))"
      using sw b1 b first cn by (metis (full_types))
    have B: "(\<forall>i < ?n. blocked (bufDescTable s1 ! i)) \<and>
             (\<forall>i < ?n. swept c st i \<longrightarrow> pinCnt (bufDescTable s1 ! i) \<noteq> 0) \<longleftrightarrow>
             (\<forall>i < ?n. blocked (?d ! i)) \<and>
             (\<forall>i < ?n. swept ?h st i \<longrightarrow> pinCnt (?d ! i) \<noteq> 0)"
      using sw b1 p1 b first cn by (metis (full_types))
    show ?thesis unfolding sweep_fails_def s1(1,2) r using A B by simp
  qed
qed

lemma sweep_fails_not_blocked:
  assumes "pool_ok s" "st < numBufs s" "\<not> blocked (bufDescTable s ! clockHand (advanceClock s))"
  shows "\<not> sweep_fails st s"
  using swept_first[OF assms(1,2)] hand_in_pool[OF assms(1)] assms(3)
  unfolding sweep_fails_def by blast

lemma allocBuf_loop_fails_iff:
  assumes "pool_ok s" "st < numBufs s"
  shows "fst (allocBuf_loop st s) = Inl BufferExceededException \<longleftrightarrow> sweep_fails st s"
  using assms
proof (induction rule: sweep_induct)
  case (invalid s)
  have "\<not> sweep_fails st s"
    by (rule sweep_fails_not_blocked[OF invalid(1,2)]) (use invalid(3) in \<open>simp add: blocked_def\<close>)
  then show ?case using loop_invalid[OF invalid(1,2,3)] by simp
next
  case (referenced s)
  let ?c = "clockHand (advanceClock s)"
  let ?s1 = "(advanceClock s)\<lparr>bufDescTable := (bufDescTable s)
              [?c := (bufDescTable s ! ?c)\<lparr>refbit := False\<rparr>]\<rparr>"
  have "sweep_fails st ?s1 \<longleftrightarrow> sweep_fails st s"
    by (rule sweep_fails_step[OF referenced(1,2) refl])
       (use referenced(3,4) in \<open>auto simp add: blocked_def\<close>)
  then show ?case using loop_referenced[OF referenced(1-4)] referenced(5) by simp
next
  case (pinned_start s)
  let ?c = "clockHand (advanceClock s)"
  have sw: "swept (clockHand s) st i \<longleftrightarrow> i = st" if "i < numBufs s" for i
    using swept_only_first[OF pinned_start(1) that] pinned_start(6) by simp
  have "sweep_fails st s"
    unfolding sweep_fails_def using sw pinned_start(3,4,5,6) by (auto simp: blocked_def)
  then show ?case using loop_pinned_start[OF pinned_start(1-6)] by simp
next
  case (pinned s)
  let ?c = "clockHand (advanceClock s)"
  have len: "?c < length (bufDescTable s)"
    using hand_in_pool[OF pinned(1)] pinned(1) by (simp add: pool_ok_def)
  have same: "(bufDescTable s)[?c := (bufDescTable s ! ?c)\<lparr>refbit := False\<rparr>] = bufDescTable s"
    using refbit_False_id[OF pinned(4)] by simp
  have "sweep_fails st (advanceClock s) \<longleftrightarrow> sweep_fails st s"
    by (rule sweep_fails_step[OF pinned(1,2) refl])
       (use pinned(3,5,6) same in \<open>auto simp add: blocked_def\<close>)
  then show ?case using loop_pinned[OF pinned(1-6)] pinned(7) by simp
next
  case (unpinned s)
  let ?d = "bufDescTable s ! clockHand (advanceClock s)"
  have nf: "\<not> sweep_fails st s"
    by (rule sweep_fails_not_blocked[OF unpinned(1,2)])
       (use unpinned(4,5) in \<open>simp add: blocked_def\<close>)
  show ?case
  proof (cases "\<exists>f j. filePtr ?d = Some f \<and> hashTable s (f, pageNo ?d) = Some j")
    case True
    then obtain f j where "filePtr ?d = Some f" "hashTable s (f, pageNo ?d) = Some j" by blast
    then show ?thesis using loop_victim[OF unpinned(1-5)] nf by simp
  next
    case False
    then have "\<forall>f. filePtr ?d = Some f \<longrightarrow> hashTable s (f, pageNo ?d) = None" by auto
    then show ?thesis using loop_unindexed[OF unpinned(1-5)] nf by simp
  qed
qed

text \<open>
  \<open>allocBuf\<close> throws \<open>BufferExceededException\<close> exactly when every frame is blocked and,
  should the frame under the hand be referenced, every frame is pinned.
\<close>

lemma allocBuf_fails_iff:
  assumes "pool_ok s"
  shows "fst (allocBuf s) = Inl BufferExceededException \<longleftrightarrow>
           (\<forall>i < numBufs s. blocked (bufDescTable s ! i)) \<and>
           (refbit (bufDescTable s ! clockHand s) \<longrightarrow>
              (\<forall>i < numBufs s. pinCnt (bufDescTable s ! i) \<noteq> 0))"
proof -
  have st: "clockHand s < numBufs s" using assms by (simp add: pool_ok_def)
  have "fst (allocBuf s) = Inl BufferExceededException \<longleftrightarrow>
        fst (allocBuf_loop (clockHand s) s) = Inl BufferExceededException"
    by (cases "allocBuf_loop (clockHand s) s") (auto simp: allocBuf_def split: sum.splits)
  also have "\<dots> \<longleftrightarrow> sweep_fails (clockHand s) s"
    by (rule allocBuf_loop_fails_iff[OF assms st])
  also have "\<dots> \<longleftrightarrow> (\<forall>i < numBufs s. blocked (bufDescTable s ! i)) \<and>
           (refbit (bufDescTable s ! clockHand s) \<longrightarrow>
              (\<forall>i < numBufs s. pinCnt (bufDescTable s ! i) \<noteq> 0))"
    unfolding sweep_fails_def by auto
  finally show ?thesis .
qed

subsection \<open>The first frame the sweep can take\<close>

lemma passed_here:
  assumes "pool_ok s"
  shows "passed (clockHand (advanceClock s)) s s"
  using assms swept_only_first[OF assms] by (simp add: passed_def)

lemma passed_step:
  assumes "pool_ok s" "c < numBufs s" "c \<noteq> clockHand (advanceClock s)"
    and s1: "numBufs s1 = numBufs s" "clockHand s1 = clockHand (advanceClock s)"
      "bufPool s1 = bufPool s" "hashTable s1 = hashTable s" "files s1 = files s" "io s1 = io s"
      "bufDescTable s1 = (bufDescTable s)[clockHand (advanceClock s) :=
          (bufDescTable s ! clockHand (advanceClock s))\<lparr>refbit := False\<rparr>]"
    and m: "passed c s1 m"
  shows "passed c s m"
proof -
  let ?c0 = "clockHand (advanceClock s)"
  have c0: "?c0 < numBufs s" by (rule hand_in_pool[OF assms(1)])
  have len: "length (bufDescTable s) = numBufs s" using assms(1) by (simp add: pool_ok_def)
  have ok1: "pool_ok s1" using assms(1) c0 len s1 by (simp add: pool_ok_def)
  have d1: "bufDescTable s1 ! i = (if i = ?c0 then (bufDescTable s ! ?c0)\<lparr>refbit := False\<rparr>
                                   else bufDescTable s ! i)"
    if "i < numBufs s" for i using that len s1(7) by (simp add: nth_list_update)
  have sw: "swept ?c0 c i \<longleftrightarrow> swept (clockHand s) c i \<and> i \<noteq> ?c0" if "i < numBufs s" for i
    using swept_rest[OF assms(1) that assms(2)] assms(3) by auto
  have first: "swept (clockHand s) c ?c0" by (rule swept_first[OF assms(1,2)])
  have "bufDescTable m ! i =
          (if swept (clockHand s) c i \<and> i \<noteq> c
           then (bufDescTable s ! i)\<lparr>refbit := False\<rparr> else bufDescTable s ! i)"
    if i: "i < numBufs s" for i
  proof -
    have "bufDescTable m ! i =
          (if swept ?c0 c i \<and> i \<noteq> c
           then (bufDescTable s1 ! i)\<lparr>refbit := False\<rparr> else bufDescTable s1 ! i)"
      using m i s1(1,2) unfolding passed_def by simp
    then show ?thesis using sw[OF i] d1[OF i] first assms(3) by (cases "i = ?c0") auto
  qed
  then show ?thesis using m s1 unfolding passed_def by simp
qed

text \<open>
  If \<open>c\<close> is the first frame on the hand's way that is not blocked, and the hand reaches it
  no later than the starting position, the loop passes over the frames before \<open>c\<close>,
  clearing their reference bits, and then visits \<open>c\<close>.
\<close>

lemma sweep_to:
  assumes "pool_ok s" "st < numBufs s"
  shows "\<forall>c < numBufs s.
           swept (clockHand s) st c \<and> \<not> blocked (bufDescTable s ! c) \<and>
           (\<forall>i < numBufs s. swept (clockHand s) c i \<and> i \<noteq> c \<longrightarrow> blocked (bufDescTable s ! i)) \<longrightarrow>
           (\<exists>m. passed c s m \<and> allocBuf_loop st s = allocBuf_loop st m)"
  using assms
proof (induction rule: sweep_induct)
  case (invalid s)
  let ?c0 = "clockHand (advanceClock s)"
  show ?case
  proof (intro allI impI)
    fix c assume c: "c < numBufs s"
      and h: "swept (clockHand s) st c \<and> \<not> blocked (bufDescTable s ! c) \<and>
           (\<forall>i < numBufs s. swept (clockHand s) c i \<and> i \<noteq> c \<longrightarrow> blocked (bufDescTable s ! i))"
    have "\<not> blocked (bufDescTable s ! ?c0)" using invalid(3) by (simp add: blocked_def)
    then have "c = ?c0"
      using h swept_first[OF invalid(1) c] hand_in_pool[OF invalid(1)] by blast
    then show "\<exists>m. passed c s m \<and> allocBuf_loop st s = allocBuf_loop st m"
      using passed_here[OF invalid(1)] by blast
  qed
next
  case (unpinned s)
  let ?c0 = "clockHand (advanceClock s)"
  show ?case
  proof (intro allI impI)
    fix c assume c: "c < numBufs s"
      and h: "swept (clockHand s) st c \<and> \<not> blocked (bufDescTable s ! c) \<and>
           (\<forall>i < numBufs s. swept (clockHand s) c i \<and> i \<noteq> c \<longrightarrow> blocked (bufDescTable s ! i))"
    have "\<not> blocked (bufDescTable s ! ?c0)" using unpinned(4,5) by (simp add: blocked_def)
    then have "c = ?c0"
      using h swept_first[OF unpinned(1) c] hand_in_pool[OF unpinned(1)] by blast
    then show "\<exists>m. passed c s m \<and> allocBuf_loop st s = allocBuf_loop st m"
      using passed_here[OF unpinned(1)] by blast
  qed
next
  case (pinned_start s)
  let ?c0 = "clockHand (advanceClock s)"
  show ?case
  proof (intro allI impI)
    fix c assume c: "c < numBufs s"
      and h: "swept (clockHand s) st c \<and> \<not> blocked (bufDescTable s ! c) \<and>
           (\<forall>i < numBufs s. swept (clockHand s) c i \<and> i \<noteq> c \<longrightarrow> blocked (bufDescTable s ! i))"
    have "blocked (bufDescTable s ! ?c0)" using pinned_start(3,5) by (simp add: blocked_def)
    moreover have "c = ?c0" using h swept_only_first[OF pinned_start(1) c] pinned_start(6) by simp
    ultimately show "\<exists>m. passed c s m \<and> allocBuf_loop st s = allocBuf_loop st m"
      using h by simp
  qed
next
  case (referenced s)
  let ?c0 = "clockHand (advanceClock s)"
  let ?s1 = "(advanceClock s)\<lparr>bufDescTable := (bufDescTable s)
              [?c0 := (bufDescTable s ! ?c0)\<lparr>refbit := False\<rparr>]\<rparr>"
  have c0: "?c0 < numBufs s" by (rule hand_in_pool[OF referenced(1)])
  have len: "length (bufDescTable s) = numBufs s" using referenced(1) by (simp add: pool_ok_def)
  have b0: "blocked (bufDescTable s ! ?c0)" using referenced(3,4) by (simp add: blocked_def)
  show ?case
  proof (intro allI impI)
    fix c assume c: "c < numBufs s"
      and h: "swept (clockHand s) st c \<and> \<not> blocked (bufDescTable s ! c) \<and>
           (\<forall>i < numBufs s. swept (clockHand s) c i \<and> i \<noteq> c \<longrightarrow> blocked (bufDescTable s ! i))"
    have ne: "c \<noteq> ?c0" using h b0 by auto
    have nst: "?c0 \<noteq> st" using h swept_only_first[OF referenced(1) c] ne by auto
    have d1: "bufDescTable ?s1 ! i = bufDescTable s ! i" if "i \<noteq> ?c0" for i
      using that by simp
    have "swept ?c0 st c" using swept_rest[OF referenced(1) c referenced(2) nst] h ne by simp
    moreover have "\<not> blocked (bufDescTable ?s1 ! c)" using h d1[OF ne] by simp
    moreover have "\<forall>i < numBufs s. swept ?c0 c i \<and> i \<noteq> c \<longrightarrow> blocked (bufDescTable ?s1 ! i)"
    proof (intro allI impI)
      fix i assume i: "i < numBufs s" and sw: "swept ?c0 c i \<and> i \<noteq> c"
      have "swept (clockHand s) c i \<and> i \<noteq> ?c0"
        using swept_rest[OF referenced(1) i c] ne sw by auto
      then show "blocked (bufDescTable ?s1 ! i)" using h i sw d1[of i] by simp
    qed
    ultimately obtain m where m: "passed c ?s1 m" "allocBuf_loop st ?s1 = allocBuf_loop st m"
      using referenced(5) c by (auto simp: advanceClock_def)
    have "passed c s m"
      by (rule passed_step[OF referenced(1) c ne _ _ _ _ _ _ _ m(1)]) simp_all
    then show "\<exists>m. passed c s m \<and> allocBuf_loop st s = allocBuf_loop st m"
      using loop_referenced[OF referenced(1-4)] m(2) by auto
  qed
next
  case (pinned s)
  let ?c0 = "clockHand (advanceClock s)"
  have c0: "?c0 < numBufs s" by (rule hand_in_pool[OF pinned(1)])
  have b0: "blocked (bufDescTable s ! ?c0)" using pinned(3,5) by (simp add: blocked_def)
  have same: "(bufDescTable s)[?c0 := (bufDescTable s ! ?c0)\<lparr>refbit := False\<rparr>] = bufDescTable s"
    using refbit_False_id[OF pinned(4)] by simp
  show ?case
  proof (intro allI impI)
    fix c assume c: "c < numBufs s"
      and h: "swept (clockHand s) st c \<and> \<not> blocked (bufDescTable s ! c) \<and>
           (\<forall>i < numBufs s. swept (clockHand s) c i \<and> i \<noteq> c \<longrightarrow> blocked (bufDescTable s ! i))"
    have ne: "c \<noteq> ?c0" using h b0 by auto
    have "swept ?c0 st c" using swept_rest[OF pinned(1) c pinned(2)] pinned(6) h ne by auto
    moreover have "\<forall>i < numBufs s. swept ?c0 c i \<and> i \<noteq> c \<longrightarrow> blocked (bufDescTable s ! i)"
    proof (intro allI impI)
      fix i assume i: "i < numBufs s" and sw: "swept ?c0 c i \<and> i \<noteq> c"
      have "swept (clockHand s) c i \<and> i \<noteq> ?c0"
        using swept_rest[OF pinned(1) i c] ne sw by auto
      then show "blocked (bufDescTable s ! i)" using h i sw by simp
    qed
    ultimately obtain m where m: "passed c (advanceClock s) m"
      "allocBuf_loop st (advanceClock s) = allocBuf_loop st m"
      using pinned(7) c h by (auto simp: advanceClock_def)
    have "passed c s m"
      by (rule passed_step[OF pinned(1) c ne _ _ _ _ _ _ _ m(1)]) (simp_all add: same)
    then show "\<exists>m. passed c s m \<and> allocBuf_loop st s = allocBuf_loop st m"
      using loop_pinned[OF pinned(1-6)] m(2) by auto
  qed
qed

text \<open>
  In a consistent state \<open>allocBuf\<close> returns the first frame on the hand's way round that is
  not blocked: the hand stops there, the frames passed have lost their reference bits and
  nothing else, the frame's identity is out of the hash table and its descriptor is
  cleared.
\<close>

lemma allocBuf_first_free:
  assumes "inv s" "c < numBufs s" "\<not> blocked (bufDescTable s ! c)"
    "\<forall>i < numBufs s. swept (clockHand s) c i \<and> i \<noteq> c \<longrightarrow> blocked (bufDescTable s ! i)"
  shows "fst (allocBuf s) = Inr c \<and> clockHand (snd (allocBuf s)) = c \<and>
         bufPool (snd (allocBuf s)) = bufPool s \<and>
         bufDescTable (snd (allocBuf s)) ! c = BufDesc_Clear (bufDescTable s ! c) \<and>
         (\<forall>i < numBufs s. i \<noteq> c \<longrightarrow>
            bufDescTable (snd (allocBuf s)) ! i =
              (if swept (clockHand s) c i then (bufDescTable s ! i)\<lparr>refbit := False\<rparr>
               else bufDescTable s ! i)) \<and>
         hashTable (snd (allocBuf s)) =
           (case filePtr (bufDescTable s ! c) of
              None \<Rightarrow> hashTable s
            | Some f \<Rightarrow> (hashTable s)((f, pageNo (bufDescTable s ! c)) := None))"
proof -
  have ok: "pool_ok s" by (rule inv_pool_ok[OF assms(1)])
  have st: "clockHand s < numBufs s" using ok by (simp add: pool_ok_def)
  obtain m where m: "passed c s m" "allocBuf_loop (clockHand s) s = allocBuf_loop (clockHand s) m"
    using sweep_to[OF ok st] assms(2,3,4) by auto
  have okm: "pool_ok m" and hc: "clockHand (advanceClock m) = c" and n: "numBufs m = numBufs s"
    and same: "bufPool m = bufPool s" "hashTable m = hashTable s"
    and dm: "\<And>i. i < numBufs s \<Longrightarrow> bufDescTable m ! i =
          (if swept (clockHand s) c i \<and> i \<noteq> c
           then (bufDescTable s ! i)\<lparr>refbit := False\<rparr> else bufDescTable s ! i)"
    using m(1) unfolding passed_def by simp_all
  have dc: "bufDescTable m ! c = bufDescTable s ! c" using dm[OF assms(2)] by simp
  have stm: "clockHand s < numBufs m" using st n by simp
  have lenm: "length (bufDescTable m) = numBufs s" using okm n by (simp add: pool_ok_def)
  have fno: "frameNo (bufDescTable s ! c) = c" by (rule inv_frameNo[OF assms(1,2)])
  have others: "\<forall>i < numBufs s. i \<noteq> c \<longrightarrow>
            ((bufDescTable m)[c := BufDesc_Clear (bufDescTable s ! c)]) ! i =
              (if swept (clockHand s) c i then (bufDescTable s ! i)\<lparr>refbit := False\<rparr>
               else bufDescTable s ! i)"
    using dm by simp
  show ?thesis
  proof (cases "valid (bufDescTable s ! c)")
    case False
    have fp: "filePtr (bufDescTable s ! c) = None"
      using assms(1,2) False unfolding inv_def by simp
    have "allocBuf s =
            (Inr c, (advanceClock m)\<lparr>bufDescTable :=
               (bufDescTable m)[c := BufDesc_Clear (bufDescTable s ! c)]\<rparr>)"
      using loop_invalid[OF okm stm] m(2) hc dc False fno by (simp add: allocBuf_def)
    then show ?thesis using hc same fp others assms(2) lenm by simp
  next
    case True
    then have r: "\<not> refbit (bufDescTable s ! c)" and p: "pinCnt (bufDescTable s ! c) = 0"
      using assms(3) by (simp_all add: blocked_def)
    obtain f where f: "filePtr (bufDescTable s ! c) = Some f"
      "hashTable s (f, pageNo (bufDescTable s ! c)) = Some c"
      using inv_indexed[OF assms(1,2) True] by blast
    have "allocBuf_loop (clockHand s) m =
           (Inr c,
            if dirty (bufDescTable s ! c)
            then file_writePage f (bufPool s ! c)
                   ((advanceClock m)\<lparr>hashTable :=
                      (hashTable s)((f, pageNo (bufDescTable s ! c)) := None)\<rparr>)
            else (advanceClock m)\<lparr>hashTable :=
                      (hashTable s)((f, pageNo (bufDescTable s ! c)) := None),
                    bufDescTable := (bufDescTable m)[c := BufDesc_Clear (bufDescTable s ! c)]\<rparr>)"
      using loop_victim[OF okm stm, of f c] hc dc True r p f same fno by simp
    then have "fst (allocBuf s) = Inr c"
      "clockHand (snd (allocBuf s)) = c" "bufPool (snd (allocBuf s)) = bufPool s"
      "bufDescTable (snd (allocBuf s)) = (bufDescTable m)[c := BufDesc_Clear (bufDescTable s ! c)]"
      "hashTable (snd (allocBuf s)) = (hashTable s)((f, pageNo (bufDescTable s ! c)) := None)"
      using m(2) hc dc same lenm assms(2) by (simp_all add: allocBuf_def)
    then show ?thesis using f(1) others assms(2) lenm by simp
  qed
qed

subsection \<open>The second revolution of the sweep\<close>

text \<open>
  The frames the hand passes on its way to a frame lie nearer to the hand than that frame;
  so among the frames with a property there is one the hand reaches first.
\<close>

lemma swept_rank:
  assumes "h < n" "c < n" "i < n" "swept h c i" "i \<noteq> c"
  shows "(if h < i then i - h - 1 else i + n - h - 1) < (if h < c then c - h - 1 else c + n - h - 1)"
  using assms by (auto simp: swept_def split: if_splits)

lemma first_on_way:
  assumes "h < n" "i0 < n" "P i0"
  shows "\<exists>c < n. P c \<and> (\<forall>i < n. swept h c i \<and> i \<noteq> c \<longrightarrow> \<not> P i)"
proof -
  let ?r = "\<lambda>i. if h < i then i - h - 1 else i + n - h - 1"
  obtain c where c: "c < n \<and> P c" "\<forall>y. y < n \<and> P y \<longrightarrow> ?r c \<le> ?r y"
    using ex_has_least_nat[of "\<lambda>i. i < n \<and> P i" i0 ?r] assms(2,3) by blast
  have "\<not> P i" if "i < n" "swept h c i \<and> i \<noteq> c" for i
  proof
    assume "P i"
    then have "?r c \<le> ?r i" using c(2) that(1) by blast
    moreover have "?r i < ?r c" using swept_rank[OF assms(1) _ that(1)] c(1) that(2) by blast
    ultimately show False by simp
  qed
  then show ?thesis using c(1) by blast
qed

text \<open>
  If every frame the hand has still to visit on its way to the starting position is
  blocked and the frame at the starting position is referenced, the loop comes back to
  the starting position having cleared the reference bits of those frames and nothing
  else, and goes on.
\<close>

lemma sweep_round:
  assumes "pool_ok s" "st < numBufs s"
  shows "(\<forall>i < numBufs s. swept (clockHand s) st i \<longrightarrow> blocked (bufDescTable s ! i)) \<and>
         refbit (bufDescTable s ! st) \<longrightarrow>
         (\<exists>m. allocBuf_loop st s = allocBuf_loop st m \<and> pool_ok m \<and> refs_cleared s m \<and>
              clockHand m = st \<and>
              (\<forall>i < numBufs s. bufDescTable m ! i =
                 (if swept (clockHand s) st i then (bufDescTable s ! i)\<lparr>refbit := False\<rparr>
                  else bufDescTable s ! i)))"
  using assms
proof (induction rule: sweep_induct)
  case (invalid s)
  have "\<not> blocked (bufDescTable s ! clockHand (advanceClock s))"
    using invalid(3) by (simp add: blocked_def)
  then show ?case
    using swept_first[OF invalid(1,2)] hand_in_pool[OF invalid(1)] by blast
next
  case (unpinned s)
  have "\<not> blocked (bufDescTable s ! clockHand (advanceClock s))"
    using unpinned(4,5) by (simp add: blocked_def)
  then show ?case
    using swept_first[OF unpinned(1,2)] hand_in_pool[OF unpinned(1)] by blast
next
  case (pinned_start s)
  then show ?case by simp
next
  case (referenced s)
  let ?c0 = "clockHand (advanceClock s)"
  let ?s1 = "(advanceClock s)\<lparr>bufDescTable := (bufDescTable s)
              [?c0 := (bufDescTable s ! ?c0)\<lparr>refbit := False\<rparr>]\<rparr>"
  have c0: "?c0 < numBufs s" by (rule hand_in_pool[OF referenced(1)])
  have len: "length (bufDescTable s) = numBufs s" using referenced(1) by (simp add: pool_ok_def)
  have ok1: "pool_ok ?s1" using referenced(1) by (simp add: pool_ok_def advanceClock_def)
  have rc1: "refs_cleared s ?s1"
    by (rule refs_cleared_visit) (use c0 len in simp)
  have d1: "bufDescTable ?s1 ! i = (if i = ?c0 then (bufDescTable s ! ?c0)\<lparr>refbit := False\<rparr>
                                    else bufDescTable s ! i)" if "i < numBufs s" for i
    using that len by (simp add: nth_list_update)
  show ?case
  proof (intro impI)
    assume h: "(\<forall>i < numBufs s. swept (clockHand s) st i \<longrightarrow> blocked (bufDescTable s ! i)) \<and>
         refbit (bufDescTable s ! st)"
    show "\<exists>m. allocBuf_loop st s = allocBuf_loop st m \<and> pool_ok m \<and> refs_cleared s m \<and>
              clockHand m = st \<and>
              (\<forall>i < numBufs s. bufDescTable m ! i =
                 (if swept (clockHand s) st i then (bufDescTable s ! i)\<lparr>refbit := False\<rparr>
                  else bufDescTable s ! i))"
    proof (cases "?c0 = st")
      case True
      have sw: "swept (clockHand s) st i \<longleftrightarrow> i = st" if "i < numBufs s" for i
        using swept_only_first[OF referenced(1) that] True by simp
      have "\<forall>i < numBufs s. bufDescTable ?s1 ! i =
                 (if swept (clockHand s) st i then (bufDescTable s ! i)\<lparr>refbit := False\<rparr>
                  else bufDescTable s ! i)"
        using d1 sw True by simp
      moreover have "clockHand ?s1 = st" using True by simp
      ultimately show ?thesis
        using loop_referenced[OF referenced(1-4)] ok1 rc1 by blast
    next
      case False
      have sw: "swept ?c0 st i \<longleftrightarrow> swept (clockHand s) st i \<and> i \<noteq> ?c0" if "i < numBufs s" for i
        using swept_rest[OF referenced(1) that referenced(2) False] .
      have first: "swept (clockHand s) st ?c0" by (rule swept_first[OF referenced(1,2)])
      have "\<forall>i < numBufs ?s1. swept (clockHand ?s1) st i \<longrightarrow> blocked (bufDescTable ?s1 ! i)"
        using h sw d1 by simp
      moreover have "refbit (bufDescTable ?s1 ! st)"
        using h d1[OF referenced(2)] False by simp
      ultimately obtain m where m: "allocBuf_loop st ?s1 = allocBuf_loop st m" "pool_ok m"
        "refs_cleared ?s1 m" "clockHand m = st"
        "\<forall>i < numBufs ?s1. bufDescTable m ! i =
                 (if swept (clockHand ?s1) st i then (bufDescTable ?s1 ! i)\<lparr>refbit := False\<rparr>
                  else bufDescTable ?s1 ! i)"
        using referenced(5) by blast
      have "bufDescTable m ! i =
                 (if swept (clockHand s) st i then (bufDescTable s ! i)\<lparr>refbit := False\<rparr>
                  else bufDescTable s ! i)" if i: "i < numBufs s" for i
      proof -
        have "bufDescTable m ! i =
                 (if swept ?c0 st i then (bufDescTable ?s1 ! i)\<lparr>refbit := False\<rparr>
                  else bufDescTable ?s1 ! i)"
          using m(5) i by simp
        then show ?thesis using sw[OF i] d1[OF i] first by (cases "i = ?c0") auto
      qed
      moreover have "refs_cleared s m" by (rule refs_cleared_trans[OF rc1 m(3)])
      ultimately show ?thesis
        using loop_referenced[OF referenced(1-4)] m(1,2,4) by auto
    qed
  qed
next
  case (pinned s)
  let ?c0 = "clockHand (advanceClock s)"
  have c0: "?c0 < numBufs s" by (rule hand_in_pool[OF pinned(1)])
  have ne: "?c0 \<noteq> st" using pinned(6) by simp
  have sw: "swept ?c0 st i \<longleftrightarrow> swept (clockHand s) st i \<and> i \<noteq> ?c0" if "i < numBufs s" for i
    using swept_rest[OF pinned(1) that pinned(2) ne] .
  have first: "swept (clockHand s) st ?c0" by (rule swept_first[OF pinned(1,2)])
  show ?case
  proof (intro impI)
    assume h: "(\<forall>i < numBufs s. swept (clockHand s) st i \<longrightarrow> blocked (bufDescTable s ! i)) \<and>
         refbit (bufDescTable s ! st)"
    have "\<forall>i < numBufs (advanceClock s). swept (clockHand (advanceClock s)) st i \<longrightarrow>
             blocked (bufDescTable (advanceClock s) ! i)"
      using h sw by simp
    moreover have "refbit (bufDescTable (advanceClock s) ! st)" using h by simp
    ultimately obtain m where m: "allocBuf_loop st (advanceClock s) = allocBuf_loop st m"
        "pool_ok m" "refs_cleared (advanceClock s) m" "clockHand m = st"
        "\<forall>i < numBufs (advanceClock s). bufDescTable m ! i =
           (if swept (clockHand (advanceClock s)) st i
            then (bufDescTable (advanceClock s) ! i)\<lparr>refbit := False\<rparr>
            else bufDescTable (advanceClock s) ! i)"
      using pinned(7) by blast
    have "bufDescTable m ! i =
                 (if swept (clockHand s) st i then (bufDescTable s ! i)\<lparr>refbit := False\<rparr>
                  else bufDescTable s ! i)" if i: "i < numBufs s" for i
    proof -
      have "bufDescTable m ! i =
                 (if swept ?c0 st i then (bufDescTable s ! i)\<lparr>refbit := False\<rparr>
                  else bufDescTable s ! i)"
        using m(5) i by simp
      then show ?thesis
        using sw[OF i] first refbit_False_id[OF pinned(4)] by (cases "i = ?c0") auto
    qed
    moreover have "refs_cleared s m"
      by (rule refs_cleared_trans[OF refs_cleared_advance m(3)])
    ultimately show "\<exists>m. allocBuf_loop st s = allocBuf_loop st m \<and> pool_ok m \<and> refs_cleared s m \<and>
              clockHand m = st \<and>
              (\<forall>i < numBufs s. bufDescTable m ! i =
                 (if swept (clockHand s) st i then (bufDescTable s ! i)\<lparr>refbit := False\<rparr>
                  else bufDescTable s ! i))"
      using loop_pinned[OF pinned(1-6)] m(1,2,4) by auto
  qed
qed


lemma BufDesc_Clear_refbit [simp]: "BufDesc_Clear (d\<lparr>refbit := b\<rparr>) = BufDesc_Clear d"
  by (simp add: BufDesc_Clear_def)

text \<open>
  The second revolution. If every frame is blocked and the frame under the hand is
  referenced, the sweep clears every reference bit on its first revolution and then takes
  the first frame on the hand's way that is not pinned.
\<close>

lemma allocBuf_second_round:
  assumes "inv s" "c < numBufs s" "\<forall>i < numBufs s. blocked (bufDescTable s ! i)"
    "refbit (bufDescTable s ! clockHand s)" "pinCnt (bufDescTable s ! c) = 0"
    "\<forall>i < numBufs s. swept (clockHand s) c i \<and> i \<noteq> c \<longrightarrow> pinCnt (bufDescTable s ! i) \<noteq> 0"
  shows "fst (allocBuf s) = Inr c \<and> clockHand (snd (allocBuf s)) = c \<and>
         bufPool (snd (allocBuf s)) = bufPool s \<and>
         bufDescTable (snd (allocBuf s)) ! c = BufDesc_Clear (bufDescTable s ! c) \<and>
         (\<forall>i < numBufs s. i \<noteq> c \<longrightarrow>
            bufDescTable (snd (allocBuf s)) ! i = (bufDescTable s ! i)\<lparr>refbit := False\<rparr>) \<and>
         hashTable (snd (allocBuf s)) =
           (case filePtr (bufDescTable s ! c) of
              None \<Rightarrow> hashTable s
            | Some f \<Rightarrow> (hashTable s)((f, pageNo (bufDescTable s ! c)) := None))"
proof -
  have ok: "pool_ok s" by (rule inv_pool_ok[OF assms(1)])
  have st: "clockHand s < numBufs s" using ok by (simp add: pool_ok_def)
  obtain m where m: "allocBuf_loop (clockHand s) s = allocBuf_loop (clockHand s) m"
    "pool_ok m" "refs_cleared s m" "clockHand m = clockHand s"
    and dm: "\<forall>i < numBufs s. bufDescTable m ! i = (bufDescTable s ! i)\<lparr>refbit := False\<rparr>"
    using sweep_round[OF ok st] assms(3,4) by auto
  have n: "numBufs m = numBufs s" and same: "bufPool m = bufPool s" "hashTable m = hashTable s"
    using m(3) by (simp_all add: refs_cleared_def)
  have im: "inv m" by (rule inv_refs_cleared[OF assms(1) m(3) m(2)])
  have eq: "allocBuf s = allocBuf m" using m(1,4) by (simp add: allocBuf_def)
  have b: "blocked (bufDescTable m ! i) \<longleftrightarrow> pinCnt (bufDescTable s ! i) \<noteq> 0"
    if "i < numBufs s" for i
    using dm assms(3) that by (simp add: blocked_def)
  have 1: "c < numBufs m" using assms(2) n by simp
  have 2: "\<not> blocked (bufDescTable m ! c)" using b[OF assms(2)] assms(5) by simp
  have 3: "\<forall>i < numBufs m. swept (clockHand m) c i \<and> i \<noteq> c \<longrightarrow> blocked (bufDescTable m ! i)"
    using assms(6) b n m(4) by simp
  note r = allocBuf_first_free[OF im 1 2 3]
  have dc: "bufDescTable m ! c = (bufDescTable s ! c)\<lparr>refbit := False\<rparr>"
    using dm assms(2) by simp
  have "\<forall>i < numBufs s. i \<noteq> c \<longrightarrow>
            bufDescTable (snd (allocBuf s)) ! i = (bufDescTable s ! i)\<lparr>refbit := False\<rparr>"
  proof (intro allI impI)
    fix i assume i: "i < numBufs s" "i \<noteq> c"
    have "bufDescTable (snd (allocBuf m)) ! i =
              (if swept (clockHand m) c i then (bufDescTable m ! i)\<lparr>refbit := False\<rparr>
               else bufDescTable m ! i)"
      using r i n by simp
    then show "bufDescTable (snd (allocBuf s)) ! i = (bufDescTable s ! i)\<lparr>refbit := False\<rparr>"
      using dm i(1) eq by simp
  qed
  moreover have "hashTable (snd (allocBuf s)) =
           (case filePtr (bufDescTable s ! c) of
              None \<Rightarrow> hashTable s
            | Some f \<Rightarrow> (hashTable s)((f, pageNo (bufDescTable s ! c)) := None))"
    using r eq same by (simp add: dc split: option.splits)
  moreover have "fst (allocBuf s) = Inr c" "clockHand (snd (allocBuf s)) = c"
    "bufPool (snd (allocBuf s)) = bufPool s"
    "bufDescTable (snd (allocBuf s)) ! c = BufDesc_Clear (bufDescTable s ! c)"
    using r eq same by (simp_all add: dc)
  ultimately show ?thesis by blast
qed

text \<open>
  In a consistent state \<open>allocBuf\<close> ends in one of three ways: it returns the first frame
  on the hand's way that is not blocked; or, every frame being blocked and the frame under
  the hand referenced, it returns the first frame on the hand's way that is not pinned; or
  it throws \<open>BufferExceededException\<close>.
\<close>

lemma allocBuf_returns:
  assumes "inv s" "fst (allocBuf s) = Inr c"
  shows "c < numBufs s \<and>
         (\<not> blocked (bufDescTable s ! c) \<and>
          (\<forall>i < numBufs s. swept (clockHand s) c i \<and> i \<noteq> c \<longrightarrow> blocked (bufDescTable s ! i)) \<or>
          (\<forall>i < numBufs s. blocked (bufDescTable s ! i)) \<and>
          refbit (bufDescTable s ! clockHand s) \<and> pinCnt (bufDescTable s ! c) = 0 \<and>
          (\<forall>i < numBufs s. swept (clockHand s) c i \<and> i \<noteq> c \<longrightarrow>
             pinCnt (bufDescTable s ! i) \<noteq> 0))"
proof -
  let ?n = "numBufs s" and ?h = "clockHand s" and ?d = "bufDescTable s"
  have ok: "pool_ok s" by (rule inv_pool_ok[OF assms(1)])
  have st: "?h < ?n" using ok by (simp add: pool_ok_def)
  show ?thesis
  proof (cases "\<exists>i < ?n. \<not> blocked (?d ! i)")
    case True
    then obtain c' where c': "c' < ?n" "\<not> blocked (?d ! c')"
      "\<forall>i < ?n. swept ?h c' i \<and> i \<noteq> c' \<longrightarrow> \<not> \<not> blocked (?d ! i)"
      using first_on_way[OF st, of _ "\<lambda>i. \<not> blocked (?d ! i)"] by blast
    then have 3: "\<forall>i < ?n. swept ?h c' i \<and> i \<noteq> c' \<longrightarrow> blocked (?d ! i)" by simp
    have "fst (allocBuf s) = Inr c'" using allocBuf_first_free[OF assms(1) c'(1,2) 3] by simp
    then have "c = c'" using assms(2) by simp
    then show ?thesis using c'(1,2) 3 by simp
  next
    case False
    then have all: "\<forall>i < ?n. blocked (?d ! i)" by simp
    have nf: "\<not> ((\<forall>i < ?n. blocked (?d ! i)) \<and>
                 (refbit (?d ! ?h) \<longrightarrow> (\<forall>i < ?n. pinCnt (?d ! i) \<noteq> 0)))"
      using allocBuf_fails_iff[OF ok] assms(2) by simp
    then have r: "refbit (?d ! ?h)" and "\<exists>i < ?n. pinCnt (?d ! i) = 0" using all by auto
    then obtain c' where c': "c' < ?n" "pinCnt (?d ! c') = 0"
      "\<forall>i < ?n. swept ?h c' i \<and> i \<noteq> c' \<longrightarrow> \<not> pinCnt (?d ! i) = 0"
      using first_on_way[OF st, of _ "\<lambda>i. pinCnt (?d ! i) = 0"] by blast
    have "fst (allocBuf s) = Inr c'"
      using allocBuf_second_round[OF assms(1) c'(1) all r c'(2,3)] by simp
    then have "c = c'" using assms(2) by simp
    then show ?thesis using c' all r by simp
  qed
qed

section \<open>The claims\<close>

lemma inv_ex_pool: "inv ex_pool"
  unfolding inv_def pool_ok_def ex_pool_def
  by (auto simp: less_Suc_eq nth_Cons' numeral_3_eq_3 split: if_splits)

text \<open>
  C7, as the code has it: \<open>unPinPage\<close> on an identity that no frame maps returns normally
  and changes nothing. The source catches the hash table's exception and skips the rest;
  there is no error for an absent page.
\<close>

theorem unPinPage_absent_silent:
  "hashTable s (f, p) = None \<Longrightarrow> unPinPage f p markDirty s = (Inr (), s)"
  by (simp add: unPinPage_def ht_lookup_def)

theorem unPinPage_absent_silent_witness:
  "hashTable ex_pool (0, 7) = None \<and> unPinPage 0 7 True ex_pool = (Inr (), ex_pool)"
proof -
  have h: "hashTable ex_pool (0, 7) = None" by (simp add: ex_pool_def)
  show ?thesis using h unPinPage_absent_silent[OF h, of True] by simp
qed

theorem unPinPage_absent_counterexample:
  "hashTable ex_pool (0, 7) = None \<and> fst (unPinPage 0 7 True ex_pool) = Inr ()"
  by (simp add: ex_pool_def unPinPage_def ht_lookup_def)

text \<open>
  C8: when a frame maps the page, \<open>unPinPage\<close> throws \<open>PageNotPinnedException\<close> on a pin
  count of zero and leaves the state as it was; on a positive pin count it lowers the
  count by exactly one and sets the dirty flag if asked to; a dirty flag that was set stays
  set whatever the argument.
\<close>

theorem unPinPage_found:
  assumes "hashTable s (f, p) = Some i" "i < length (bufDescTable s)"
  shows "(pinCnt (bufDescTable s ! i) = 0 \<longrightarrow>
            unPinPage f p markDirty s = (Inl PageNotPinnedException, s)) \<and>
         (0 < pinCnt (bufDescTable s ! i) \<longrightarrow>
            unPinPage f p markDirty s =
              (Inr (), s\<lparr>bufDescTable := (bufDescTable s)
                 [i := (bufDescTable s ! i)\<lparr>pinCnt := pinCnt (bufDescTable s ! i) - 1,
                         dirty := (markDirty \<or> dirty (bufDescTable s ! i))\<rparr>]\<rparr>) \<and>
            Suc (pinCnt (bufDescTable (snd (unPinPage f p markDirty s)) ! i)) =
              pinCnt (bufDescTable s ! i)) \<and>
         (dirty (bufDescTable s ! i) \<longrightarrow>
            dirty (bufDescTable (snd (unPinPage f p markDirty s)) ! i))"
  using assms by (simp add: unPinPage_def ht_lookup_def Let_def)

theorem unPinPage_found_witness:
  "hashTable ex_pool (0, 1) = Some 0 \<and> 0 < length (bufDescTable ex_pool) \<and>
   0 < pinCnt (bufDescTable ex_pool ! 0) \<and>
   Suc (pinCnt (bufDescTable (snd (unPinPage 0 1 True ex_pool)) ! 0)) = pinCnt (bufDescTable ex_pool ! 0) \<and>
   hashTable ex_pool (0, 2) = Some 1 \<and> 1 < length (bufDescTable ex_pool) \<and>
   pinCnt (bufDescTable ex_pool ! 1) = 0 \<and> dirty (bufDescTable ex_pool ! 1) \<and>
   unPinPage 0 2 False ex_pool = (Inl PageNotPinnedException, ex_pool) \<and>
   dirty (bufDescTable (snd (unPinPage 0 2 False ex_pool)) ! 1)"
proof -
  have h0: "hashTable ex_pool (0, 1) = Some 0" "0 < length (bufDescTable ex_pool)"
    and p0: "0 < pinCnt (bufDescTable ex_pool ! 0)"
    and h1: "hashTable ex_pool (0, 2) = Some 1" "1 < length (bufDescTable ex_pool)"
    and p1: "pinCnt (bufDescTable ex_pool ! 1) = 0" "dirty (bufDescTable ex_pool ! 1)"
    by (simp_all add: ex_pool_def)
  show ?thesis
    using h0 p0 h1 p1 unPinPage_found[OF h0, of True] unPinPage_found[OF h1, of False]
    by simp
qed

text \<open>
  C6: from a consistent state (the constructor's state is one, \<open>inv_init\<close>), each of
  \<open>readPage\<close>, \<open>unPinPage\<close>, \<open>allocPage\<close>, \<open>disposePage\<close> and \<open>flushFile\<close> ends, whether it
  returns or throws, in a consistent state: no two valid frames hold the same page of the
  same file, and the hash table maps exactly the identities of the valid frames to their
  frame numbers. Consistency carries the shape of the pool and the data model's rule that
  a frame owns a file exactly when it is valid along with the two properties.
\<close>

theorem consistency_preserved:
  assumes "inv s"
  shows "(inv (snd (readPage f p s)) \<and> unique_frames (snd (readPage f p s)) \<and>
            index_exact (snd (readPage f p s))) \<and>
         (inv (snd (unPinPage f p markDirty s)) \<and> unique_frames (snd (unPinPage f p markDirty s)) \<and>
            index_exact (snd (unPinPage f p markDirty s))) \<and>
         (inv (snd (allocPage f s)) \<and> unique_frames (snd (allocPage f s)) \<and>
            index_exact (snd (allocPage f s))) \<and>
         (inv (snd (disposePage f p s)) \<and> unique_frames (snd (disposePage f p s)) \<and>
            index_exact (snd (disposePage f p s))) \<and>
         (inv (snd (flushFile f s)) \<and> unique_frames (snd (flushFile f s)) \<and>
            index_exact (snd (flushFile f s)))"
proof -
  have "inv t \<Longrightarrow> inv t \<and> unique_frames t \<and> index_exact t" for t
    by (simp add: inv_unique inv_index_exact)
  then show ?thesis
    using readPage_inv[OF assms] unPinPage_inv[OF assms] allocPage_inv[OF assms]
      disposePage_inv[OF assms] flushFile_inv[OF assms]
    by blast
qed

theorem consistency_preserved_witness:
  "inv ex_pool \<and>
   unique_frames (snd (readPage 0 3 ex_pool)) \<and> index_exact (snd (readPage 0 3 ex_pool)) \<and>
   unique_frames (snd (unPinPage 0 3 True ex_pool)) \<and> index_exact (snd (unPinPage 0 3 True ex_pool)) \<and>
   unique_frames (snd (allocPage 0 ex_pool)) \<and> index_exact (snd (allocPage 0 ex_pool)) \<and>
   unique_frames (snd (disposePage 0 3 ex_pool)) \<and> index_exact (snd (disposePage 0 3 ex_pool)) \<and>
   unique_frames (snd (flushFile 0 ex_pool)) \<and> index_exact (snd (flushFile 0 ex_pool))"
  using consistency_preserved[OF inv_ex_pool, of 0 3 True] inv_ex_pool by simp

text \<open>
  C2: \<open>readPage\<close> on a page the hash table maps to frame \<open>i\<close> sets that frame's reference
  bit, raises its pin count by exactly one, touches nothing else (so no call goes to the
  file) and returns the frame. On a page the hash table does not map, it calls \<open>allocBuf\<close>
  and passes on what that throws; otherwise it reads the page from the file (which may
  throw), stores it in the frame \<open>allocBuf\<close> returned, inserts the identity into the hash
  table and sets the descriptor: valid, not dirty, not referenced, pin count one, owner
  and page number set.
\<close>

theorem readPage_hit_miss:
  assumes "inv s"
  shows "(\<forall>i. hashTable s (f, p) = Some i \<longrightarrow>
            readPage f p s =
              (Inr i, s\<lparr>bufDescTable := (bufDescTable s)
                 [i := (bufDescTable s ! i)\<lparr>refbit := True,
                         pinCnt := pinCnt (bufDescTable s ! i) + 1\<rparr>]\<rparr>) \<and>
            refbit (bufDescTable (snd (readPage f p s)) ! i) \<and>
            pinCnt (bufDescTable (snd (readPage f p s)) ! i) = pinCnt (bufDescTable s ! i) + 1 \<and>
            io (snd (readPage f p s)) = io s \<and> files (snd (readPage f p s)) = files s) \<and>
         (hashTable s (f, p) = None \<longrightarrow>
            (case allocBuf s of
               (Inl e, s1) \<Rightarrow> e = BufferExceededException \<and> readPage f p s = (Inl e, s1)
             | (Inr fid, s1) \<Rightarrow>
                 (case pages (files s1 f) p of
                    None \<Rightarrow>
                      readPage f p s =
                        (Inl InvalidPageException, s1\<lparr>io := io s1 @ [ReadPage f p]\<rparr>)
                  | Some tPage \<Rightarrow>
                      readPage f p s =
                        (Inr fid,
                         s1\<lparr>io := io s1 @ [ReadPage f p],
                            bufPool := (bufPool s1)[fid := tPage],
                            hashTable := (hashTable s1)((f, p) \<mapsto> fid),
                            bufDescTable := (bufDescTable s1)
                              [fid := BufDesc_Set f p (bufDescTable s1 ! fid)]\<rparr>) \<and>
                      bufPool (snd (readPage f p s)) ! fid = tPage \<and>
                      hashTable (snd (readPage f p s)) (f, p) = Some fid \<and>
                      valid (bufDescTable (snd (readPage f p s)) ! fid) \<and>
                      \<not> dirty (bufDescTable (snd (readPage f p s)) ! fid) \<and>
                      \<not> refbit (bufDescTable (snd (readPage f p s)) ! fid) \<and>
                      pinCnt (bufDescTable (snd (readPage f p s)) ! fid) = 1 \<and>
                      filePtr (bufDescTable (snd (readPage f p s)) ! fid) = Some f \<and>
                      pageNo (bufDescTable (snd (readPage f p s)) ! fid) = p)))"
proof (intro conjI allI impI)
  fix i assume h: "hashTable s (f, p) = Some i"
  have i: "i < length (bufDescTable s)" using inv_hit[OF assms h] inv_lengths[OF assms] by simp
  show "readPage f p s =
              (Inr i, s\<lparr>bufDescTable := (bufDescTable s)
                 [i := (bufDescTable s ! i)\<lparr>refbit := True,
                         pinCnt := pinCnt (bufDescTable s ! i) + 1\<rparr>]\<rparr>)"
    using h i by (simp add: readPage_def ht_lookup_def Let_def)
  then show "refbit (bufDescTable (snd (readPage f p s)) ! i)"
    "pinCnt (bufDescTable (snd (readPage f p s)) ! i) = pinCnt (bufDescTable s ! i) + 1"
    "io (snd (readPage f p s)) = io s" "files (snd (readPage f p s)) = files s"
    using i by simp_all
next
  assume h: "hashTable s (f, p) = None"
  obtain r s1 where a: "allocBuf s = (r, s1)" by (cases "allocBuf s")
  have i1: "inv s1" "numBufs s1 = numBufs s" "hashTable s1 (f, p) = None"
    using allocBuf_inv(1,2)[OF assms] allocBuf_inv(5)[OF assms h] a by simp_all
  show "case allocBuf s of
               (Inl e, s1) \<Rightarrow> e = BufferExceededException \<and> readPage f p s = (Inl e, s1)
             | (Inr fid, s1) \<Rightarrow>
                 (case pages (files s1 f) p of
                    None \<Rightarrow>
                      readPage f p s =
                        (Inl InvalidPageException, s1\<lparr>io := io s1 @ [ReadPage f p]\<rparr>)
                  | Some tPage \<Rightarrow>
                      readPage f p s =
                        (Inr fid,
                         s1\<lparr>io := io s1 @ [ReadPage f p],
                            bufPool := (bufPool s1)[fid := tPage],
                            hashTable := (hashTable s1)((f, p) \<mapsto> fid),
                            bufDescTable := (bufDescTable s1)
                              [fid := BufDesc_Set f p (bufDescTable s1 ! fid)]\<rparr>) \<and>
                      bufPool (snd (readPage f p s)) ! fid = tPage \<and>
                      hashTable (snd (readPage f p s)) (f, p) = Some fid \<and>
                      valid (bufDescTable (snd (readPage f p s)) ! fid) \<and>
                      \<not> dirty (bufDescTable (snd (readPage f p s)) ! fid) \<and>
                      \<not> refbit (bufDescTable (snd (readPage f p s)) ! fid) \<and>
                      pinCnt (bufDescTable (snd (readPage f p s)) ! fid) = 1 \<and>
                      filePtr (bufDescTable (snd (readPage f p s)) ! fid) = Some f \<and>
                      pageNo (bufDescTable (snd (readPage f p s)) ! fid) = p)"
  proof (cases r)
    case (Inl e)
    then show ?thesis using allocBuf_inv(4)[OF assms, of e] a h
      by (simp add: readPage_def ht_lookup_def)
  next
    case (Inr fid)
    have fr: "fid < numBufs s1" using allocBuf_inv(3)[OF assms, of fid] a Inr i1 by simp
    note len = inv_lengths[OF i1(1)]
    show ?thesis
    proof (cases "pages (files s1 f) p")
      case None
      then show ?thesis using a Inr h
        by (simp add: readPage_def ht_lookup_def file_readPage_def)
    next
      case (Some tPage)
      then show ?thesis using a Inr h fr len i1(3)
        by (simp add: readPage_def ht_lookup_def file_readPage_def ht_insert_def Let_def)
    qed
  qed
qed

theorem readPage_hit_miss_witness:
  "inv ex_pool \<and> hashTable ex_pool (0, 1) = Some 0 \<and>
   fst (readPage 0 1 ex_pool) = Inr 0 \<and>
   pinCnt (bufDescTable (snd (readPage 0 1 ex_pool)) ! 0) = 2 \<and>
   refbit (bufDescTable (snd (readPage 0 1 ex_pool)) ! 0) \<and>
   io (snd (readPage 0 1 ex_pool)) = [] \<and>
   hashTable ex_pool (0, 3) = None \<and>
   fst (readPage 0 3 ex_pool) = Inr 1 \<and>
   bufPool (snd (readPage 0 3 ex_pool)) ! 1 = \<lparr>page_number = 3, contents = ''disk''\<rparr> \<and>
   hashTable (snd (readPage 0 3 ex_pool)) (0, 3) = Some 1 \<and>
   bufDescTable (snd (readPage 0 3 ex_pool)) ! 1 =
     \<lparr>filePtr = Some 0, pageNo = 3, frameNo = 1, pinCnt = 1, dirty = False, valid = True,
      refbit = False\<rparr>"
proof -
  have h: "hashTable ex_pool (0, 1) = Some 0" "hashTable ex_pool (0, 3) = None"
    by (simp_all add: ex_pool_def)
  have a: "allocBuf ex_pool =
     (Inr 1, ex_pool\<lparr>clockHand := 1,
        hashTable := [(0, 1) \<mapsto> 0],
        bufDescTable := (bufDescTable ex_pool)[1 := BufDesc_Clear (bufDescTable ex_pool ! 1)],
        files := (files ex_pool)(0 := (files ex_pool 0)\<lparr>pages := (pages (files ex_pool 0))(2 \<mapsto> \<lparr>page_number = 2, contents = ''edit''\<rparr>)\<rparr>),
        io := [WritePage 0 \<lparr>page_number = 2, contents = ''edit''\<rparr>]\<rparr>)"
    by (simp add: allocBuf_def allocBuf_loop.simps allocBuf_visit_def advanceClock_def ex_pool_def
      ht_remove_def file_writePage_def Let_def fun_upd_twist)
  have d0: "pinCnt (bufDescTable ex_pool ! 0) = 1" "io ex_pool = []" "files ex_pool = ex_files"
    "length (bufDescTable ex_pool) = 3"
    by (simp_all add: ex_pool_def)
  have pg: "pages (ex_files 0) 3 = Some \<lparr>page_number = 3, contents = ''disk''\<rparr>"
    by (simp add: ex_files_def)
  note t = readPage_hit_miss[OF inv_ex_pool, of 0 1] readPage_hit_miss[OF inv_ex_pool, of 0 3]
  have hit: "readPage 0 1 ex_pool =
              (Inr 0, ex_pool\<lparr>bufDescTable := (bufDescTable ex_pool)
                 [0 := (bufDescTable ex_pool ! 0)\<lparr>refbit := True,
                         pinCnt := pinCnt (bufDescTable ex_pool ! 0) + 1\<rparr>]\<rparr>) \<and>
            refbit (bufDescTable (snd (readPage 0 1 ex_pool)) ! 0) \<and>
            pinCnt (bufDescTable (snd (readPage 0 1 ex_pool)) ! 0) =
              pinCnt (bufDescTable ex_pool ! 0) + 1 \<and>
            io (snd (readPage 0 1 ex_pool)) = io ex_pool \<and>
            files (snd (readPage 0 1 ex_pool)) = files ex_pool"
    by (rule mp[OF spec[OF conjunct1[OF t(1)], of 0] h(1)])
  have "case allocBuf ex_pool of
               (Inl e, s1) \<Rightarrow> e = BufferExceededException \<and> readPage 0 3 ex_pool = (Inl e, s1)
             | (Inr fid, s1) \<Rightarrow>
                 (case pages (files s1 0) 3 of
                    None \<Rightarrow>
                      readPage 0 3 ex_pool =
                        (Inl InvalidPageException, s1\<lparr>io := io s1 @ [ReadPage 0 3]\<rparr>)
                  | Some tPage \<Rightarrow>
                      readPage 0 3 ex_pool =
                        (Inr fid,
                         s1\<lparr>io := io s1 @ [ReadPage 0 3],
                            bufPool := (bufPool s1)[fid := tPage],
                            hashTable := (hashTable s1)((0, 3) \<mapsto> fid),
                            bufDescTable := (bufDescTable s1)
                              [fid := BufDesc_Set 0 3 (bufDescTable s1 ! fid)]\<rparr>) \<and>
                      bufPool (snd (readPage 0 3 ex_pool)) ! fid = tPage \<and>
                      hashTable (snd (readPage 0 3 ex_pool)) (0, 3) = Some fid \<and>
                      valid (bufDescTable (snd (readPage 0 3 ex_pool)) ! fid) \<and>
                      \<not> dirty (bufDescTable (snd (readPage 0 3 ex_pool)) ! fid) \<and>
                      \<not> refbit (bufDescTable (snd (readPage 0 3 ex_pool)) ! fid) \<and>
                      pinCnt (bufDescTable (snd (readPage 0 3 ex_pool)) ! fid) = 1 \<and>
                      filePtr (bufDescTable (snd (readPage 0 3 ex_pool)) ! fid) = Some 0 \<and>
                      pageNo (bufDescTable (snd (readPage 0 3 ex_pool)) ! fid) = 3)"
    by (rule mp[OF conjunct2[OF t(2)] h(2)])
  then have miss: "readPage 0 3 ex_pool =
       (Inr 1,
        ex_pool\<lparr>clockHand := 1,
          files := (files ex_pool)(0 := (files ex_pool 0)\<lparr>pages := (pages (files ex_pool 0))(2 \<mapsto> \<lparr>page_number = 2, contents = ''edit''\<rparr>)\<rparr>),
          io := [WritePage 0 \<lparr>page_number = 2, contents = ''edit''\<rparr>, ReadPage 0 3],
          bufPool := (bufPool ex_pool)[1 := \<lparr>page_number = 3, contents = ''disk''\<rparr>],
          hashTable := [(0, 1) \<mapsto> 0, (0, 3) \<mapsto> 1],
          bufDescTable := (bufDescTable ex_pool)
             [1 := BufDesc_Set 0 3 (BufDesc_Clear (bufDescTable ex_pool ! 1))]\<rparr>)"
    by (simp add: a d0 pg)
  have "fst (readPage 0 1 ex_pool) = Inr 0" using hit by simp
  moreover have "pinCnt (bufDescTable (snd (readPage 0 1 ex_pool)) ! 0) = 2"
    "refbit (bufDescTable (snd (readPage 0 1 ex_pool)) ! 0)" "io (snd (readPage 0 1 ex_pool)) = []"
    using hit d0 by simp_all
  moreover have "fst (readPage 0 3 ex_pool) = Inr 1"
    "bufPool (snd (readPage 0 3 ex_pool)) ! 1 = \<lparr>page_number = 3, contents = ''disk''\<rparr>"
    "hashTable (snd (readPage 0 3 ex_pool)) (0, 3) = Some 1"
    "bufDescTable (snd (readPage 0 3 ex_pool)) ! 1 =
     \<lparr>filePtr = Some 0, pageNo = 3, frameNo = 1, pinCnt = 1, dirty = False, valid = True,
      refbit = False\<rparr>"
    unfolding miss by (simp_all add: ex_pool_def BufDesc_Set_def BufDesc_Clear_def)
  ultimately show ?thesis using inv_ex_pool h by simp
qed

text \<open>
  C10: in a consistent state, \<open>disposePage\<close> on a page that a valid frame holds with a
  positive pin count throws \<open>PagePinnedException\<close> and changes nothing; on a page that a
  valid frame holds unpinned it clears that descriptor and removes the identity from the
  hash table; and whenever it does not throw, cached or not, it ends by calling
  \<open>File::deletePage\<close>, which is the only call it makes to the file: the frame's content is
  not written back, dirty or not.
\<close>

theorem disposePage_cases:
  assumes "inv s"
  shows "(\<forall>i < numBufs s.
            valid (bufDescTable s ! i) \<and> filePtr (bufDescTable s ! i) = Some f \<and>
            pageNo (bufDescTable s ! i) = p \<and> 0 < pinCnt (bufDescTable s ! i) \<longrightarrow>
            disposePage f p s = (Inl PagePinnedException, s)) \<and>
         (\<forall>i < numBufs s.
            valid (bufDescTable s ! i) \<and> filePtr (bufDescTable s ! i) = Some f \<and>
            pageNo (bufDescTable s ! i) = p \<and> pinCnt (bufDescTable s ! i) = 0 \<longrightarrow>
            disposePage f p s =
              (Inr (),
               file_deletePage f p
                 (s\<lparr>bufDescTable := (bufDescTable s)[i := BufDesc_Clear (bufDescTable s ! i)],
                    hashTable := (hashTable s)((f, p) := None)\<rparr>)) \<and>
            \<not> valid (bufDescTable (snd (disposePage f p s)) ! i) \<and>
            hashTable (snd (disposePage f p s)) (f, p) = None) \<and>
         (hashTable s (f, p) = None \<longrightarrow>
            disposePage f p s = (Inr (), file_deletePage f p s)) \<and>
         (fst (disposePage f p s) = Inr () \<longrightarrow>
            io (snd (disposePage f p s)) = io s @ [DeletePage f p] \<and>
            pages (files (snd (disposePage f p s)) f) p = None)"
proof -
  note len = inv_lengths[OF assms]
  have pinned: "disposePage f p s = (Inl PagePinnedException, s)"
    if "i < numBufs s" "valid (bufDescTable s ! i)" "filePtr (bufDescTable s ! i) = Some f"
      "pageNo (bufDescTable s ! i) = p" "0 < pinCnt (bufDescTable s ! i)" for i
    using disposePage_frames_cached[OF assms inv_only_frame[OF assms that(1,3,4)]] that(5)
    by (simp add: disposePage_def)
  have dropped: "disposePage f p s =
              (Inr (),
               file_deletePage f p
                 (s\<lparr>bufDescTable := (bufDescTable s)[i := BufDesc_Clear (bufDescTable s ! i)],
                    hashTable := (hashTable s)((f, p) := None)\<rparr>))"
    if "i < numBufs s" "valid (bufDescTable s ! i)" "filePtr (bufDescTable s ! i) = Some f"
      "pageNo (bufDescTable s ! i) = p" "pinCnt (bufDescTable s ! i) = 0" for i
    using disposePage_frames_cached[OF assms inv_only_frame[OF assms that(1,3,4)]] that(5)
    by (simp add: disposePage_def)
  have absent: "disposePage f p s = (Inr (), file_deletePage f p s)"
    if "hashTable s (f, p) = None"
    using disposePage_frames_absent[OF assms that] by (simp add: disposePage_def)
  have log: "io (snd (disposePage f p s)) = io s @ [DeletePage f p] \<and>
            pages (files (snd (disposePage f p s)) f) p = None"
    if ok: "fst (disposePage f p s) = Inr ()"
  proof (cases "hashTable s (f, p)")
    case None
    then show ?thesis using absent by (simp add: file_deletePage_def)
  next
    case (Some i)
    note hit = inv_hit[OF assms Some]
    show ?thesis
    proof (cases "0 < pinCnt (bufDescTable s ! i)")
      case True
      then show ?thesis using pinned[of i] hit ok by simp
    next
      case False
      then show ?thesis using dropped[of i] hit by (simp add: file_deletePage_def)
    qed
  qed
  show ?thesis
  proof (intro conjI allI impI)
    fix i assume "i < numBufs s" and h: "valid (bufDescTable s ! i) \<and> filePtr (bufDescTable s ! i) = Some f \<and>
            pageNo (bufDescTable s ! i) = p \<and> 0 < pinCnt (bufDescTable s ! i)"
    then show "disposePage f p s = (Inl PagePinnedException, s)" using pinned[of i] by blast
  next
    fix i assume i: "i < numBufs s" and h: "valid (bufDescTable s ! i) \<and> filePtr (bufDescTable s ! i) = Some f \<and>
            pageNo (bufDescTable s ! i) = p \<and> pinCnt (bufDescTable s ! i) = 0"
    then show d: "disposePage f p s =
              (Inr (),
               file_deletePage f p
                 (s\<lparr>bufDescTable := (bufDescTable s)[i := BufDesc_Clear (bufDescTable s ! i)],
                    hashTable := (hashTable s)((f, p) := None)\<rparr>))" using dropped[of i] by blast
    show "\<not> valid (bufDescTable (snd (disposePage f p s)) ! i)"
      "hashTable (snd (disposePage f p s)) (f, p) = None"
      using d i len by (simp_all add: file_deletePage_def)
  next
    assume "hashTable s (f, p) = None"
    then show "disposePage f p s = (Inr (), file_deletePage f p s)" by (rule absent)
  next
    assume ok: "fst (disposePage f p s) = Inr ()"
    show "io (snd (disposePage f p s)) = io s @ [DeletePage f p]"
      "pages (files (snd (disposePage f p s)) f) p = None"
      using log[OF ok] by simp_all
  qed
qed

theorem disposePage_cases_witness:
  "inv ex_pool \<and> 0 < numBufs ex_pool \<and> 1 < numBufs ex_pool \<and>
   valid (bufDescTable ex_pool ! 0) \<and> filePtr (bufDescTable ex_pool ! 0) = Some 0 \<and>
   pageNo (bufDescTable ex_pool ! 0) = 1 \<and> 0 < pinCnt (bufDescTable ex_pool ! 0) \<and>
   disposePage 0 1 ex_pool = (Inl PagePinnedException, ex_pool) \<and>
   valid (bufDescTable ex_pool ! 1) \<and> filePtr (bufDescTable ex_pool ! 1) = Some 0 \<and>
   pageNo (bufDescTable ex_pool ! 1) = 2 \<and> pinCnt (bufDescTable ex_pool ! 1) = 0 \<and>
   dirty (bufDescTable ex_pool ! 1) \<and>
   fst (disposePage 0 2 ex_pool) = Inr () \<and>
   \<not> valid (bufDescTable (snd (disposePage 0 2 ex_pool)) ! 1) \<and>
   hashTable (snd (disposePage 0 2 ex_pool)) (0, 2) = None \<and>
   io (snd (disposePage 0 2 ex_pool)) = [DeletePage 0 2] \<and>
   hashTable ex_pool (0, 4) = None \<and>
   disposePage 0 4 ex_pool = (Inr (), file_deletePage 0 4 ex_pool)"
proof -
  have f: "0 < numBufs ex_pool" "1 < numBufs ex_pool"
    "valid (bufDescTable ex_pool ! 0) \<and> filePtr (bufDescTable ex_pool ! 0) = Some 0 \<and>
       pageNo (bufDescTable ex_pool ! 0) = 1 \<and> 0 < pinCnt (bufDescTable ex_pool ! 0)"
    "valid (bufDescTable ex_pool ! 1) \<and> filePtr (bufDescTable ex_pool ! 1) = Some 0 \<and>
       pageNo (bufDescTable ex_pool ! 1) = 2 \<and> pinCnt (bufDescTable ex_pool ! 1) = 0"
    "dirty (bufDescTable ex_pool ! 1)" "hashTable ex_pool (0, 4) = None" "io ex_pool = []"
    by (simp_all add: ex_pool_def)
  note t1 = disposePage_cases[OF inv_ex_pool, of 0 1]
  note t2 = disposePage_cases[OF inv_ex_pool, of 0 2]
  note t4 = disposePage_cases[OF inv_ex_pool, of 0 4]
  have a: "disposePage 0 1 ex_pool = (Inl PagePinnedException, ex_pool)"
    using t1 f(1,3) by blast
  have b: "disposePage 0 2 ex_pool =
              (Inr (),
               file_deletePage 0 2
                 (ex_pool\<lparr>bufDescTable := (bufDescTable ex_pool)[1 := BufDesc_Clear (bufDescTable ex_pool ! 1)],
                    hashTable := (hashTable ex_pool)((0, 2) := None)\<rparr>)) \<and>
            \<not> valid (bufDescTable (snd (disposePage 0 2 ex_pool)) ! 1) \<and>
            hashTable (snd (disposePage 0 2 ex_pool)) (0, 2) = None"
    using t2 f(2,4) by blast
  then have b2: "fst (disposePage 0 2 ex_pool) = Inr ()" by simp
  have b3: "\<not> valid (bufDescTable (snd (disposePage 0 2 ex_pool)) ! 1)"
    "hashTable (snd (disposePage 0 2 ex_pool)) (0, 2) = None"
    using b by blast+
  have c: "io (snd (disposePage 0 2 ex_pool)) = io ex_pool @ [DeletePage 0 2]"
    using t2 b2 by blast
  have d: "disposePage 0 4 ex_pool = (Inr (), file_deletePage 0 4 ex_pool)"
    using t4 f(6) by blast
  show ?thesis using inv_ex_pool f a b3 b2 c d by simp
qed

lemma indexed_for_ex_idle: "indexed_for 0 ex_idle"
  unfolding indexed_for_def pool_ok_def ex_idle_def ex_pool_def
  by (auto simp: less_Suc_eq nth_Cons' numeral_3_eq_3 split: if_splits)

lemma indexed_for_ex_stale: "indexed_for 1 ex_stale"
  unfolding indexed_for_def pool_ok_def ex_stale_def ex_pool_def
  by (auto simp: less_Suc_eq nth_Cons' numeral_3_eq_3 split: if_splits)

text \<open>
  C9: \<open>flushFile\<close> goes through the frames in order. At the first frame of the file that is
  pinned or not valid it throws, \<open>PagePinnedException\<close> if the pin count is not zero and
  \<open>BadBufferException\<close> otherwise; so with every frame of the file valid, as in every
  consistent state, a pinned frame of the file means \<open>PagePinnedException\<close>. With no such
  frame it returns: every frame of the file has been written to the file if it was dirty
  (the calls are \<open>writePage\<close> with the frame's content, in frame order), its identity is
  gone from the hash table and its descriptor is cleared, dirty or not, so no frame names
  the file any more, and flushing the file again returns without changing anything.
\<close>

theorem flushFile_cases:
  assumes "indexed_for f s"
  shows "(\<forall>i < numBufs s.
            filePtr (bufDescTable s ! i) = Some f \<and>
            (pinCnt (bufDescTable s ! i) \<noteq> 0 \<or> \<not> valid (bufDescTable s ! i)) \<and>
            (\<forall>j < i. filePtr (bufDescTable s ! j) = Some f \<longrightarrow>
                 pinCnt (bufDescTable s ! j) = 0 \<and> valid (bufDescTable s ! j)) \<longrightarrow>
            fst (flushFile f s) =
              Inl (if pinCnt (bufDescTable s ! i) \<noteq> 0 then PagePinnedException
                   else BadBufferException)) \<and>
         ((\<forall>j < numBufs s. filePtr (bufDescTable s ! j) = Some f \<longrightarrow> valid (bufDescTable s ! j)) \<and>
          (\<exists>j < numBufs s. filePtr (bufDescTable s ! j) = Some f \<and> pinCnt (bufDescTable s ! j) \<noteq> 0) \<longrightarrow>
            fst (flushFile f s) = Inl PagePinnedException) \<and>
         ((\<forall>j < numBufs s. filePtr (bufDescTable s ! j) = Some f \<longrightarrow>
              pinCnt (bufDescTable s ! j) = 0 \<and> valid (bufDescTable s ! j)) \<longrightarrow>
            fst (flushFile f s) = Inr () \<and>
            flushed f [0..<numBufs s] s (snd (flushFile f s)) \<and>
            (\<forall>j < numBufs s. filePtr (bufDescTable s ! j) = Some f \<longrightarrow>
               bufDescTable (snd (flushFile f s)) ! j = BufDesc_Clear (bufDescTable s ! j) \<and>
               hashTable (snd (flushFile f s)) (f, pageNo (bufDescTable s ! j)) = None) \<and>
            io (snd (flushFile f s)) =
              io s @ map (\<lambda>j. WritePage f (bufPool s ! j))
                       (filter (\<lambda>j. filePtr (bufDescTable s ! j) = Some f \<and>
                                     dirty (bufDescTable s ! j)) [0..<numBufs s]) \<and>
            (\<forall>j < numBufs s. filePtr (bufDescTable (snd (flushFile f s)) ! j) \<noteq> Some f) \<and>
            flushFile f (snd (flushFile f s)) = (Inr (), snd (flushFile f s)))"
    (is "?A \<and> ?B \<and> ?C")
proof -
  have A: ?A
    using flushFile_first_offender[OF assms] by blast
  have B: ?B
  proof
    assume a: "(\<forall>j < numBufs s. filePtr (bufDescTable s ! j) = Some f \<longrightarrow> valid (bufDescTable s ! j)) \<and>
          (\<exists>j < numBufs s. filePtr (bufDescTable s ! j) = Some f \<and> pinCnt (bufDescTable s ! j) \<noteq> 0)"
    define P where "P j \<longleftrightarrow> j < numBufs s \<and> filePtr (bufDescTable s ! j) = Some f \<and>
       pinCnt (bufDescTable s ! j) \<noteq> 0" for j
    have "\<exists>j. P j" using a unfolding P_def by blast
    then obtain i where i: "P i" "\<forall>j < i. \<not> P j" using exists_least_iff[of P] by blast
    have "fst (flushFile f s) =
             Inl (if pinCnt (bufDescTable s ! i) \<noteq> 0 then PagePinnedException
                  else BadBufferException)"
    proof (rule flushFile_first_offender[OF assms])
      show "i < numBufs s" "filePtr (bufDescTable s ! i) = Some f"
        "pinCnt (bufDescTable s ! i) \<noteq> 0 \<or> \<not> valid (bufDescTable s ! i)"
        using i(1) unfolding P_def by simp_all
      show "\<forall>j < i. filePtr (bufDescTable s ! j) = Some f \<longrightarrow>
          pinCnt (bufDescTable s ! j) = 0 \<and> valid (bufDescTable s ! j)"
        using i a unfolding P_def by (metis less_trans)
    qed
    then show "fst (flushFile f s) = Inl PagePinnedException" using i(1) unfolding P_def by simp
  qed
  have C: ?C
  proof
    assume a: "\<forall>j < numBufs s. filePtr (bufDescTable s ! j) = Some f \<longrightarrow>
                pinCnt (bufDescTable s ! j) = 0 \<and> valid (bufDescTable s ! j)"
    have ok: "pool_ok s" using assms by (simp add: indexed_for_def)
    have r: "fst (flushFile f s) = Inr () \<and> flushed f [0..<numBufs s] s (snd (flushFile f s))"
      unfolding flushFile_def
      by (rule flushFile_frames_flushed[OF assms]) (use a in auto)
    then have fl: "flushed f [0..<numBufs s] s (snd (flushFile f s))" by simp
    have len: "length (bufDescTable s) = numBufs s" using ok by (simp add: pool_ok_def)
    have io: "io (snd (flushFile f s)) =
                io s @ map (\<lambda>j. WritePage f (bufPool s ! j))
                         (filter (\<lambda>j. filePtr (bufDescTable s ! j) = Some f \<and>
                                       dirty (bufDescTable s ! j)) [0..<numBufs s])"
      using fl unfolding flushed_def by blast
    have d: "bufDescTable (snd (flushFile f s)) ! j =
            (if filePtr (bufDescTable s ! j) = Some f
             then BufDesc_Clear (bufDescTable s ! j) else bufDescTable s ! j)"
      if "j < numBufs s" for j
      using fl that len unfolding flushed_def by simp
    have h: "hashTable (snd (flushFile f s)) (f, pageNo (bufDescTable s ! j)) = None"
      if "j < numBufs s" "filePtr (bufDescTable s ! j) = Some f" for j
    proof -
      have "hashTable (snd (flushFile f s)) (f, pageNo (bufDescTable s ! j)) =
            (if \<exists>j' \<in> set [0..<numBufs s]. filePtr (bufDescTable s ! j') = Some f \<and>
                   (f, pageNo (bufDescTable s ! j)) = (f, pageNo (bufDescTable s ! j'))
             then None else hashTable s (f, pageNo (bufDescTable s ! j)))"
        using fl unfolding flushed_def by blast
      moreover have "\<exists>j' \<in> set [0..<numBufs s]. filePtr (bufDescTable s ! j') = Some f \<and>
                   (f, pageNo (bufDescTable s ! j)) = (f, pageNo (bufDescTable s ! j'))"
        using that by auto
      ultimately show ?thesis by simp
    qed
    have cleared: "\<forall>j < numBufs s. filePtr (bufDescTable s ! j) = Some f \<longrightarrow>
               bufDescTable (snd (flushFile f s)) ! j = BufDesc_Clear (bufDescTable s ! j) \<and>
               hashTable (snd (flushFile f s)) (f, pageNo (bufDescTable s ! j)) = None"
      using d h by simp
    have none: "\<forall>j < numBufs s. filePtr (bufDescTable (snd (flushFile f s)) ! j) \<noteq> Some f"
      using d by simp
    have shape: "numBufs (snd (flushFile f s)) = numBufs s"
      "length (bufDescTable (snd (flushFile f s))) = numBufs s"
      "length (bufPool (snd (flushFile f s))) = numBufs s"
      using fl ok unfolding flushed_def by (simp_all add: pool_ok_def)
    have "flushFile_frames f [0..<numBufs s] (snd (flushFile f s)) = (Inr (), snd (flushFile f s))"
      by (rule flushFile_frames_none) (use none shape in auto)
    then have again: "flushFile f (snd (flushFile f s)) = (Inr (), snd (flushFile f s))"
      using shape(1) by (simp add: flushFile_def)
    show "fst (flushFile f s) = Inr () \<and>
            flushed f [0..<numBufs s] s (snd (flushFile f s)) \<and>
            (\<forall>j < numBufs s. filePtr (bufDescTable s ! j) = Some f \<longrightarrow>
               bufDescTable (snd (flushFile f s)) ! j = BufDesc_Clear (bufDescTable s ! j) \<and>
               hashTable (snd (flushFile f s)) (f, pageNo (bufDescTable s ! j)) = None) \<and>
            io (snd (flushFile f s)) =
              io s @ map (\<lambda>j. WritePage f (bufPool s ! j))
                       (filter (\<lambda>j. filePtr (bufDescTable s ! j) = Some f \<and>
                                     dirty (bufDescTable s ! j)) [0..<numBufs s]) \<and>
            (\<forall>j < numBufs s. filePtr (bufDescTable (snd (flushFile f s)) ! j) \<noteq> Some f) \<and>
            flushFile f (snd (flushFile f s)) = (Inr (), snd (flushFile f s))"
      using r cleared io none again by (intro conjI) simp_all
  qed
  show ?thesis by (rule conjI[OF A conjI[OF B C]])
qed

theorem flushFile_cases_witness:
  "indexed_for 0 ex_pool \<and> fst (flushFile 0 ex_pool) = Inl PagePinnedException \<and>
   indexed_for 1 ex_stale \<and> fst (flushFile 1 ex_stale) = Inl BadBufferException \<and>
   indexed_for 0 ex_idle \<and> fst (flushFile 0 ex_idle) = Inr () \<and>
   io (snd (flushFile 0 ex_idle)) = [WritePage 0 \<lparr>page_number = 2, contents = ''edit''\<rparr>] \<and>
   flushFile 0 (snd (flushFile 0 ex_idle)) = (Inr (), snd (flushFile 0 ex_idle))"
proof -
  note ix = inv_indexed_for[OF inv_ex_pool, of 0]
  have p: "0 < numBufs ex_pool" "filePtr (bufDescTable ex_pool ! 0) = Some 0 \<and>
            (pinCnt (bufDescTable ex_pool ! 0) \<noteq> 0 \<or> \<not> valid (bufDescTable ex_pool ! 0)) \<and>
            (\<forall>j < 0. filePtr (bufDescTable ex_pool ! j) = Some 0 \<longrightarrow>
                 pinCnt (bufDescTable ex_pool ! j) = 0 \<and> valid (bufDescTable ex_pool ! j))"
    "pinCnt (bufDescTable ex_pool ! 0) \<noteq> 0"
    by (simp_all add: ex_pool_def)
  have a: "fst (flushFile 0 ex_pool) = Inl PagePinnedException"
    using mp[OF mp[OF spec[OF conjunct1[OF flushFile_cases[OF ix]], of 0] p(1)] p(2)] p(3)
    by simp
  have q: "2 < numBufs ex_stale" "filePtr (bufDescTable ex_stale ! 2) = Some 1 \<and>
            (pinCnt (bufDescTable ex_stale ! 2) \<noteq> 0 \<or> \<not> valid (bufDescTable ex_stale ! 2)) \<and>
            (\<forall>j < 2. filePtr (bufDescTable ex_stale ! j) = Some 1 \<longrightarrow>
                 pinCnt (bufDescTable ex_stale ! j) = 0 \<and> valid (bufDescTable ex_stale ! j))"
    "pinCnt (bufDescTable ex_stale ! 2) = 0"
    by (auto simp add: ex_stale_def ex_pool_def less_Suc_eq numeral_2_eq_2)
  have b: "fst (flushFile 1 ex_stale) = Inl BadBufferException"
    using mp[OF mp[OF spec[OF conjunct1[OF flushFile_cases[OF indexed_for_ex_stale]], of 2] q(1)] q(2)] q(3)
    by simp
  have r: "\<forall>j < numBufs ex_idle. filePtr (bufDescTable ex_idle ! j) = Some 0 \<longrightarrow>
              pinCnt (bufDescTable ex_idle ! j) = 0 \<and> valid (bufDescTable ex_idle ! j)"
    by (auto simp add: ex_idle_def ex_pool_def less_Suc_eq numeral_3_eq_3)
  have w: "io ex_idle @ map (\<lambda>j. WritePage 0 (bufPool ex_idle ! j))
                       (filter (\<lambda>j. filePtr (bufDescTable ex_idle ! j) = Some 0 \<and>
                                     dirty (bufDescTable ex_idle ! j)) [0..<numBufs ex_idle]) =
           [WritePage 0 \<lparr>page_number = 2, contents = ''edit''\<rparr>]"
    by (simp add: ex_idle_def ex_pool_def upt_rec)
  note c = mp[OF conjunct2[OF conjunct2[OF flushFile_cases[OF indexed_for_ex_idle]]] r]
  have c1: "fst (flushFile 0 ex_idle) = Inr ()" using c by blast
  have c2: "io (snd (flushFile 0 ex_idle)) = [WritePage 0 \<lparr>page_number = 2, contents = ''edit''\<rparr>]"
    using c w by simp
  have c3: "flushFile 0 (snd (flushFile 0 ex_idle)) = (Inr (), snd (flushFile 0 ex_idle))"
    using c by blast
  show ?thesis using ix a indexed_for_ex_stale b indexed_for_ex_idle c1 c2 c3 by blast
qed

lemma ex_dirty_eq:
  "ex_dirty =
     \<lparr>bufDescTable =
        [\<lparr>filePtr = Some 0, pageNo = 2, frameNo = 0, pinCnt = 0, dirty = True,
          valid = True, refbit = False\<rparr>,
         \<lparr>filePtr = None, pageNo = 0, frameNo = 1, pinCnt = 0, dirty = False,
          valid = False, refbit = False\<rparr>,
         \<lparr>filePtr = None, pageNo = 0, frameNo = 2, pinCnt = 0, dirty = False,
          valid = False, refbit = False\<rparr>],
      bufPool =
        [\<lparr>page_number = 2, contents = ''disk''\<rparr>, \<lparr>page_number = 0, contents = []\<rparr>,
         \<lparr>page_number = 0, contents = []\<rparr>],
      hashTable = [(0, 2) \<mapsto> 0],
      numBufs = 3,
      clockHand = 0,
      files = ex_files,
      io = [ReadPage 0 2]\<rparr>"
  by (simp add: ex_dirty_def unPinPage_def readPage_def allocBuf_def allocBuf_loop.simps
      allocBuf_visit_def advanceClock_def BufMgr_init_def ht_lookup_def ht_insert_def
      file_readPage_def ex_files_def BufDesc_Set_def BufDesc_Clear_def Let_def upt_rec
      numeral_3_eq_3)

lemma inv_ex_dirty: "inv ex_dirty"
  unfolding ex_dirty_def by (intro unPinPage_inv readPage_inv inv_init) simp

lemma allocBuf_ex_pool:
  "allocBuf ex_pool =
     (Inr 1, ex_pool\<lparr>clockHand := 1,
        hashTable := [(0, 1) \<mapsto> 0],
        bufDescTable := (bufDescTable ex_pool)[1 := BufDesc_Clear (bufDescTable ex_pool ! 1)],
        files := (files ex_pool)(0 := (files ex_pool 0)\<lparr>pages := (pages (files ex_pool 0))(2 \<mapsto> \<lparr>page_number = 2, contents = ''edit''\<rparr>)\<rparr>),
        io := [WritePage 0 \<lparr>page_number = 2, contents = ''edit''\<rparr>]\<rparr>)"
  by (simp add: allocBuf_def allocBuf_loop.simps allocBuf_visit_def advanceClock_def ex_pool_def
      ht_remove_def file_writePage_def Let_def fun_upd_twist)

text \<open>
  C5, as the code has it: a frame that is valid and dirty when the clock replacer picks it
  (for \<open>readPage\<close> or \<open>allocPage\<close>) has been handed to \<open>File::writePage\<close> of its own file
  with the content it holds, before the replacer returns and so before the frame's storage
  is overwritten; and \<open>flushFile\<close> writes every dirty frame of the file before it clears the
  descriptor. \<open>disposePage\<close> is the exception: it clears the descriptor of a dirty frame
  without writing it, the page being deleted.
\<close>

theorem dirty_written_before_reuse:
  assumes "inv s"
  shows "(\<forall>fr g. fst (allocBuf s) = Inr fr \<and> valid (bufDescTable s ! fr) \<and>
            dirty (bufDescTable s ! fr) \<and> filePtr (bufDescTable s ! fr) = Some g \<longrightarrow>
            io (snd (allocBuf s)) = io s @ [WritePage g (bufPool s ! fr)] \<and>
            bufPool (snd (allocBuf s)) = bufPool s) \<and>
         (\<forall>fr g. hashTable s (f, p) = None \<and> fst (allocBuf s) = Inr fr \<and>
            valid (bufDescTable s ! fr) \<and> dirty (bufDescTable s ! fr) \<and>
            filePtr (bufDescTable s ! fr) = Some g \<longrightarrow>
            io (snd (readPage f p s)) = io s @ [WritePage g (bufPool s ! fr), ReadPage f p]) \<and>
         (\<forall>fr g. fst (allocBuf (snd (file_allocatePage f s))) = Inr fr \<and>
            valid (bufDescTable s ! fr) \<and> dirty (bufDescTable s ! fr) \<and>
            filePtr (bufDescTable s ! fr) = Some g \<longrightarrow>
            io (snd (allocPage f s)) = io s @ [AllocatePage f, WritePage g (bufPool s ! fr)]) \<and>
         ((\<forall>j < numBufs s. filePtr (bufDescTable s ! j) = Some f \<longrightarrow>
              pinCnt (bufDescTable s ! j) = 0 \<and> valid (bufDescTable s ! j)) \<longrightarrow>
            fst (flushFile f s) = Inr () \<and>
            io (snd (flushFile f s)) =
              io s @ map (\<lambda>j. WritePage f (bufPool s ! j))
                       (filter (\<lambda>j. filePtr (bufDescTable s ! j) = Some f \<and>
                                     dirty (bufDescTable s ! j)) [0..<numBufs s]))"
    (is "?A \<and> ?B \<and> ?C \<and> ?D")
proof -
  have A: ?A using allocBuf_dirty_victim[OF assms] by blast
  have B: ?B
  proof (intro allI impI)
    fix fr g
    assume h: "hashTable s (f, p) = None \<and> fst (allocBuf s) = Inr fr \<and>
            valid (bufDescTable s ! fr) \<and> dirty (bufDescTable s ! fr) \<and>
            filePtr (bufDescTable s ! fr) = Some g"
    obtain s1 where a: "allocBuf s = (Inr fr, s1)" using h by (cases "allocBuf s") simp
    have "io s1 = io s @ [WritePage g (bufPool s ! fr)]"
      using allocBuf_dirty_victim[OF assms, of fr g] h a by simp
    then show "io (snd (readPage f p s)) = io s @ [WritePage g (bufPool s ! fr), ReadPage f p]"
      using readPage_miss_io[OF _ a, of f p] h by simp
  qed
  have C: ?C
  proof (intro allI impI)
    fix fr g
    let ?s0 = "snd (file_allocatePage f s)"
    assume h: "fst (allocBuf ?s0) = Inr fr \<and>
            valid (bufDescTable s ! fr) \<and> dirty (bufDescTable s ! fr) \<and>
            filePtr (bufDescTable s ! fr) = Some g"
    have i0: "inv ?s0" using assms by simp
    have "io ?s0 = io s @ [AllocatePage f]" by (simp add: file_allocatePage_def Let_def)
    then have "io (snd (allocBuf ?s0)) = io s @ [AllocatePage f, WritePage g (bufPool s ! fr)]"
      using allocBuf_dirty_victim[OF i0, of fr g] h by simp
    then show "io (snd (allocPage f s)) = io s @ [AllocatePage f, WritePage g (bufPool s ! fr)]"
      by (simp add: allocPage_io)
  qed
  have D: ?D
  proof
    assume a: "\<forall>j < numBufs s. filePtr (bufDescTable s ! j) = Some f \<longrightarrow>
              pinCnt (bufDescTable s ! j) = 0 \<and> valid (bufDescTable s ! j)"
    have "fst (flushFile f s) = Inr () \<and> flushed f [0..<numBufs s] s (snd (flushFile f s))"
      unfolding flushFile_def
      by (rule flushFile_frames_flushed[OF inv_indexed_for[OF assms]]) (use a in auto)
    then show "fst (flushFile f s) = Inr () \<and>
            io (snd (flushFile f s)) =
              io s @ map (\<lambda>j. WritePage f (bufPool s ! j))
                       (filter (\<lambda>j. filePtr (bufDescTable s ! j) = Some f \<and>
                                     dirty (bufDescTable s ! j)) [0..<numBufs s])"
      unfolding flushed_def by blast
  qed
  show ?thesis by (rule conjI[OF A conjI[OF B conjI[OF C D]]])
qed

theorem dirty_written_before_reuse_witness:
  "inv ex_pool \<and> fst (allocBuf ex_pool) = Inr 1 \<and> valid (bufDescTable ex_pool ! 1) \<and>
   dirty (bufDescTable ex_pool ! 1) \<and> filePtr (bufDescTable ex_pool ! 1) = Some 0 \<and>
   hashTable ex_pool (0, 3) = None \<and>
   io (snd (allocBuf ex_pool)) = [WritePage 0 \<lparr>page_number = 2, contents = ''edit''\<rparr>] \<and>
   io (snd (readPage 0 3 ex_pool)) =
     [WritePage 0 \<lparr>page_number = 2, contents = ''edit''\<rparr>, ReadPage 0 3]"
proof -
  have h: "fst (allocBuf ex_pool) = Inr 1" by (simp add: allocBuf_ex_pool)
  have d: "valid (bufDescTable ex_pool ! 1)" "dirty (bufDescTable ex_pool ! 1)"
    "filePtr (bufDescTable ex_pool ! 1) = Some 0" "hashTable ex_pool (0, 3) = None"
    "io ex_pool = []" "bufPool ex_pool ! 1 = \<lparr>page_number = 2, contents = ''edit''\<rparr>"
    by (simp_all add: ex_pool_def)
  note t = dirty_written_before_reuse[OF inv_ex_pool, of 0 3]
  have a: "io (snd (allocBuf ex_pool)) = io ex_pool @ [WritePage 0 (bufPool ex_pool ! 1)]"
    using conjunct1[OF t] h d(1-3) by blast
  have b: "io (snd (readPage 0 3 ex_pool)) =
             io ex_pool @ [WritePage 0 (bufPool ex_pool ! 1), ReadPage 0 3]"
    using conjunct1[OF conjunct2[OF t]] h d(1-4) by blast
  show ?thesis using inv_ex_pool h d(1-4) a b d(5,6) by simp
qed

theorem dirty_discarded_counterexample:
  "valid (bufDescTable ex_dirty ! 0) \<and> dirty (bufDescTable ex_dirty ! 0) \<and>
   io ex_dirty = [ReadPage 0 2] \<and>
   fst (disposePage 0 2 ex_dirty) = Inr () \<and>
   \<not> valid (bufDescTable (snd (disposePage 0 2 ex_dirty)) ! 0) \<and>
   \<not> dirty (bufDescTable (snd (disposePage 0 2 ex_dirty)) ! 0) \<and>
   io (snd (disposePage 0 2 ex_dirty)) = [ReadPage 0 2, DeletePage 0 2]"
  by (simp add: ex_dirty_eq disposePage_def disposePage_frame_def ht_remove_def
      file_deletePage_def BufDesc_Clear_def Let_def upt_rec numeral_3_eq_3)

lemma ex_one_eq:
  "ex_one =
     \<lparr>bufDescTable =
        [\<lparr>filePtr = Some 0, pageNo = 1, frameNo = 0, pinCnt = 0, dirty = False,
          valid = True, refbit = False\<rparr>],
      bufPool = [\<lparr>page_number = 1, contents = ''disk''\<rparr>],
      hashTable = [(0, 1) \<mapsto> 0],
      numBufs = 1,
      clockHand = 0,
      files = ex_files,
      io = [ReadPage 0 1]\<rparr>"
  by (simp add: ex_one_def unPinPage_def readPage_def allocBuf_def allocBuf_loop.simps
      allocBuf_visit_def advanceClock_def BufMgr_init_def ht_lookup_def ht_insert_def
      file_readPage_def ex_files_def BufDesc_Set_def BufDesc_Clear_def Let_def)

lemma ex_full_eq:
  "ex_full =
     \<lparr>bufDescTable =
        [\<lparr>filePtr = Some 0, pageNo = 1, frameNo = 0, pinCnt = 2, dirty = False,
          valid = True, refbit = True\<rparr>],
      bufPool = [\<lparr>page_number = 1, contents = ''disk''\<rparr>],
      hashTable = [(0, 1) \<mapsto> 0],
      numBufs = 1,
      clockHand = 0,
      files = ex_files,
      io = [ReadPage 0 1]\<rparr>"
  by (simp add: ex_full_def readPage_def allocBuf_def allocBuf_loop.simps
      allocBuf_visit_def advanceClock_def BufMgr_init_def ht_lookup_def ht_insert_def
      file_readPage_def ex_files_def BufDesc_Set_def BufDesc_Clear_def Let_def)

lemma inv_ex_full: "inv ex_full"
  unfolding ex_full_def by (intro readPage_inv inv_init) simp

text \<open>
  C1, as the code has it. \<open>unPinPage\<close> and, in a consistent state, \<open>disposePage\<close> throw
  before they change anything. A \<open>readPage\<close> or \<open>allocPage\<close> that throws
  \<open>BufferExceededException\<close> leaves the frames' storage, the hash table, the clock hand
  and every descriptor field but the reference bit as they were: the sweep that found the
  pool full has cleared reference bits on its way. A \<open>readPage\<close> whose \<open>File::readPage\<close>
  throws leaves the state \<open>allocBuf\<close> produced, victim evicted; and a \<open>flushFile\<close> that throws
  at a pinned frame leaves the frames before it flushed. Nothing is rolled back.
\<close>

theorem failure_leaves:
  assumes "inv s"
  shows "(\<forall>e. fst (unPinPage f p markDirty s) = Inl e \<longrightarrow> snd (unPinPage f p markDirty s) = s) \<and>
         (\<forall>e. fst (disposePage f p s) = Inl e \<longrightarrow> snd (disposePage f p s) = s) \<and>
         (fst (readPage f p s) = Inl BufferExceededException \<longrightarrow>
            refs_cleared s (snd (readPage f p s)) \<and>
            clockHand (snd (readPage f p s)) = clockHand s) \<and>
         (fst (allocPage f s) = Inl BufferExceededException \<longrightarrow>
            refs_cleared (snd (file_allocatePage f s)) (snd (allocPage f s)) \<and>
            clockHand (snd (allocPage f s)) = clockHand s) \<and>
         (\<forall>fid s1. hashTable s (f, p) = None \<and> allocBuf s = (Inr fid, s1) \<and>
            pages (files s1 f) p = None \<longrightarrow>
            readPage f p s = (Inl InvalidPageException, s1\<lparr>io := io s1 @ [ReadPage f p]\<rparr>)) \<and>
         (\<forall>i < numBufs s.
            filePtr (bufDescTable s ! i) = Some f \<and> pinCnt (bufDescTable s ! i) \<noteq> 0 \<and>
            (\<forall>j < i. filePtr (bufDescTable s ! j) = Some f \<longrightarrow> pinCnt (bufDescTable s ! j) = 0) \<longrightarrow>
            fst (flushFile f s) = Inl PagePinnedException \<and>
            flushed f [0..<i] s (snd (flushFile f s)))"
    (is "?A \<and> ?B \<and> ?C \<and> ?D \<and> ?E \<and> ?F")
proof -
  have A: ?A using unPinPage_fail_unchanged by blast
  have B: ?B using disposePage_fail_unchanged[OF assms] by blast
  have C: ?C using readPage_full_unchanged[OF assms] by blast
  have D: ?D using allocPage_full_unchanged[OF assms] by blast
  have E: ?E
    by (simp add: readPage_def ht_lookup_def file_readPage_def)
  have F: ?F
  proof (intro allI impI)
    fix i
    assume i: "i < numBufs s"
      and h: "filePtr (bufDescTable s ! i) = Some f \<and> pinCnt (bufDescTable s ! i) \<noteq> 0 \<and>
            (\<forall>j < i. filePtr (bufDescTable s ! j) = Some f \<longrightarrow> pinCnt (bufDescTable s ! j) = 0)"
    have v: "\<forall>j < i. filePtr (bufDescTable s ! j) = Some f \<longrightarrow>
        pinCnt (bufDescTable s ! j) = 0 \<and> valid (bufDescTable s ! j)"
    proof (intro allI impI)
      fix j assume j: "j < i" "filePtr (bufDescTable s ! j) = Some f"
      then have "j < numBufs s" using i by simp
      then have "valid (bufDescTable s ! j)" using assms j(2) unfolding inv_def by simp
      then show "pinCnt (bufDescTable s ! j) = 0 \<and> valid (bufDescTable s ! j)"
        using h j by simp
    qed
    note ix = inv_indexed_for[OF assms, of f]
    show "fst (flushFile f s) = Inl PagePinnedException \<and>
            flushed f [0..<i] s (snd (flushFile f s))"
      using flushFile_first_offender[OF ix i _ _ v] flushFile_offender_state[OF ix i _ _ v] h
      by simp
  qed
  show ?thesis by (rule conjI[OF A conjI[OF B conjI[OF C conjI[OF D conjI[OF E F]]]]])
qed

theorem failure_leaves_witness:
  "inv ex_pool \<and>
   fst (unPinPage 0 2 False ex_pool) = Inl PageNotPinnedException \<and>
   snd (unPinPage 0 2 False ex_pool) = ex_pool \<and>
   fst (disposePage 0 1 ex_pool) = Inl PagePinnedException \<and>
   snd (disposePage 0 1 ex_pool) = ex_pool \<and>
   inv ex_full \<and>
   fst (readPage 0 2 ex_full) = Inl BufferExceededException \<and>
   refs_cleared ex_full (snd (readPage 0 2 ex_full)) \<and>
   clockHand (snd (readPage 0 2 ex_full)) = clockHand ex_full"
proof -
  have u: "fst (unPinPage 0 2 False ex_pool) = Inl PageNotPinnedException"
    by (simp add: unPinPage_def ht_lookup_def ex_pool_def)
  have d: "fst (disposePage 0 1 ex_pool) = Inl PagePinnedException"
    by (simp add: disposePage_def disposePage_frame_def ex_pool_def upt_rec numeral_3_eq_3)
  have r: "fst (readPage 0 2 ex_full) = Inl BufferExceededException"
    by (simp add: ex_full_eq readPage_def allocBuf_def allocBuf_loop.simps
      allocBuf_visit_def advanceClock_def ht_lookup_def Let_def)
  note t1 = failure_leaves[OF inv_ex_pool, of 0 2 False]
  note t2 = failure_leaves[OF inv_ex_pool, of 0 1 False]
  note t3 = failure_leaves[OF inv_ex_full, of 0 2 False]
  have u2: "snd (unPinPage 0 2 False ex_pool) = ex_pool" using t1 u by blast
  have d2: "snd (disposePage 0 1 ex_pool) = ex_pool" using t2 d by blast
  have r2: "refs_cleared ex_full (snd (readPage 0 2 ex_full)) \<and>
            clockHand (snd (readPage 0 2 ex_full)) = clockHand ex_full"
    using t3 r by blast
  show ?thesis using inv_ex_pool inv_ex_full u u2 d d2 r r2 by blast
qed

theorem failure_mutates_counterexample:
  "hashTable ex_one (0, 1) = Some 0 \<and> valid (bufDescTable ex_one ! 0) \<and>
   fst (readPage 0 9 ex_one) = Inl InvalidPageException \<and>
   hashTable (snd (readPage 0 9 ex_one)) (0, 1) = None \<and>
   \<not> valid (bufDescTable (snd (readPage 0 9 ex_one)) ! 0) \<and>
   refbit (bufDescTable ex_full ! 0) \<and>
   fst (allocPage 0 ex_full) = Inl BufferExceededException \<and>
   \<not> refbit (bufDescTable (snd (allocPage 0 ex_full)) ! 0)"
proof -
  have "hashTable ex_one (0, 1) = Some 0" "valid (bufDescTable ex_one ! 0)"
    "refbit (bufDescTable ex_full ! 0)"
    by (simp_all add: ex_one_eq ex_full_eq)
  moreover have "fst (readPage 0 9 ex_one) = Inl InvalidPageException"
    "hashTable (snd (readPage 0 9 ex_one)) (0, 1) = None"
    "\<not> valid (bufDescTable (snd (readPage 0 9 ex_one)) ! 0)"
    by (simp_all add: ex_one_eq readPage_def allocBuf_def allocBuf_loop.simps
      allocBuf_visit_def advanceClock_def ht_lookup_def ht_remove_def file_readPage_def
      ex_files_def BufDesc_Clear_def Let_def)
  moreover have "fst (allocPage 0 ex_full) = Inl BufferExceededException"
    "\<not> refbit (bufDescTable (snd (allocPage 0 ex_full)) ! 0)"
    by (simp_all add: ex_full_eq allocPage_def file_allocatePage_def allocBuf_def
      allocBuf_loop.simps allocBuf_visit_def advanceClock_def Let_def)
  ultimately show ?thesis by blast
qed

lemma ex_three_eq:
  "ex_three =
     \<lparr>bufDescTable =
        [\<lparr>filePtr = Some 0, pageNo = 1, frameNo = 0, pinCnt = 1, dirty = False,
          valid = True, refbit = False\<rparr>,
         \<lparr>filePtr = Some 0, pageNo = 2, frameNo = 1, pinCnt = 1, dirty = False,
          valid = True, refbit = False\<rparr>,
         \<lparr>filePtr = Some 0, pageNo = 3, frameNo = 2, pinCnt = 1, dirty = False,
          valid = True, refbit = False\<rparr>],
      bufPool =
        [\<lparr>page_number = 1, contents = ''disk''\<rparr>, \<lparr>page_number = 2, contents = ''disk''\<rparr>,
         \<lparr>page_number = 3, contents = ''disk''\<rparr>],
      hashTable = [(0, 1) \<mapsto> 0, (0, 2) \<mapsto> 1, (0, 3) \<mapsto> 2],
      numBufs = 3,
      clockHand = 2,
      files = ex_files,
      io = [ReadPage 0 1, ReadPage 0 2, ReadPage 0 3]\<rparr>"
  by (simp add: ex_three_def readPage_def allocBuf_def allocBuf_loop.simps
      allocBuf_visit_def advanceClock_def BufMgr_init_def ht_lookup_def ht_insert_def
      file_readPage_def ex_files_def BufDesc_Set_def BufDesc_Clear_def Let_def upt_rec)
     (simp add: numeral_3_eq_3 numeral_2_eq_2)

lemma ex_second_eq:
  "ex_second =
     \<lparr>bufDescTable =
        [\<lparr>filePtr = Some 0, pageNo = 1, frameNo = 0, pinCnt = 0, dirty = False,
          valid = True, refbit = True\<rparr>,
         \<lparr>filePtr = Some 0, pageNo = 2, frameNo = 1, pinCnt = 2, dirty = False,
          valid = True, refbit = True\<rparr>],
      bufPool =
        [\<lparr>page_number = 1, contents = ''disk''\<rparr>, \<lparr>page_number = 2, contents = ''disk''\<rparr>],
      hashTable = [(0, 1) \<mapsto> 0, (0, 2) \<mapsto> 1],
      numBufs = 2,
      clockHand = 1,
      files = ex_files,
      io = [ReadPage 0 1, ReadPage 0 2]\<rparr>"
  by (simp add: ex_second_def unPinPage_def readPage_def allocBuf_def allocBuf_loop.simps
      allocBuf_visit_def advanceClock_def BufMgr_init_def ht_lookup_def ht_insert_def
      file_readPage_def ex_files_def BufDesc_Set_def BufDesc_Clear_def Let_def upt_rec
      numeral_2_eq_2)

text \<open>
  C3, as the code has it. The test for a full revolution sits in the branch for a pinned
  frame: a visit throws \<open>BufferExceededException\<close> exactly when the hand is back at the
  position it had when \<open>allocBuf\<close> was called and the frame there is valid, unreferenced
  and pinned. A referenced frame at that position has its bit cleared and the sweep goes
  round once more. So \<open>allocBuf\<close> throws exactly when no frame is free or evictable on the
  first revolution (each is valid and referenced or pinned) and, if the frame at the
  starting position is referenced, every frame is pinned; the hand is then where it
  started. A pool whose frames are all valid and pinned always throws, and the fourth
  fetch in a pool of three pinned pages does.
\<close>

theorem allocBuf_exceeded:
  assumes "pool_ok s"
  shows "(fst (allocBuf_visit st s) = Throw BufferExceededException \<longleftrightarrow>
            valid (bufDescTable s ! clockHand (advanceClock s)) \<and>
            \<not> refbit (bufDescTable s ! clockHand (advanceClock s)) \<and>
            pinCnt (bufDescTable s ! clockHand (advanceClock s)) \<noteq> 0 \<and>
            st = clockHand (advanceClock s)) \<and>
         (fst (allocBuf s) = Inl BufferExceededException \<longleftrightarrow>
            (\<forall>i < numBufs s. blocked (bufDescTable s ! i)) \<and>
            (refbit (bufDescTable s ! clockHand s) \<longrightarrow>
               (\<forall>i < numBufs s. pinCnt (bufDescTable s ! i) \<noteq> 0))) \<and>
         (fst (allocBuf s) = Inl BufferExceededException \<longrightarrow>
            clockHand (snd (allocBuf s)) = clockHand s) \<and>
         ((\<forall>i < numBufs s. valid (bufDescTable s ! i) \<and> pinCnt (bufDescTable s ! i) \<noteq> 0) \<longrightarrow>
            fst (allocBuf s) = Inl BufferExceededException) \<and>
         fst (readPage 0 4 ex_three) = Inl BufferExceededException"
    (is "?A \<and> ?B \<and> ?C \<and> ?D \<and> ?E")
proof -
  let ?d = "bufDescTable s ! clockHand (advanceClock s)"
  have A: ?A
  proof (cases "valid ?d")
    case False
    then show ?thesis using visit_invalid[OF assms False, of st] by simp
  next
    case v: True
    show ?thesis
    proof (cases "refbit ?d")
      case True
      then show ?thesis using visit_referenced[OF assms v True, of st] by simp
    next
      case r: False
      show ?thesis
      proof (cases "pinCnt ?d = 0")
        case False
        then show ?thesis using visit_pinned[OF assms v r False, of st] v r by simp
      next
        case p: True
        show ?thesis
        proof (cases "\<exists>f j. filePtr ?d = Some f \<and> hashTable s (f, pageNo ?d) = Some j")
          case True
          then obtain f j where "filePtr ?d = Some f" "hashTable s (f, pageNo ?d) = Some j"
            by blast
          then show ?thesis using visit_victim[OF assms v r p, of f j st] p by simp
        next
          case False
          then have "\<forall>f. filePtr ?d = Some f \<longrightarrow> hashTable s (f, pageNo ?d) = None" by auto
          then show ?thesis using visit_unindexed[OF assms v r p, of st] p by simp
        qed
      qed
    qed
  qed
  have B: ?B by (rule allocBuf_fails_iff[OF assms])
  have C: ?C using allocBuf_full[OF assms] by blast
  have D: ?D using B by (auto simp: blocked_def)
  have E: ?E
    by (simp add: ex_three_eq readPage_def allocBuf_def allocBuf_loop.simps
      allocBuf_visit_def advanceClock_def ht_lookup_def Let_def)
  show ?thesis by (rule conjI[OF A conjI[OF B conjI[OF C conjI[OF D E]]]])
qed

theorem allocBuf_exceeded_witness:
  "pool_ok ex_full \<and> fst (allocBuf ex_full) = Inl BufferExceededException \<and>
   clockHand (snd (allocBuf ex_full)) = clockHand ex_full \<and>
   pool_ok ex_three \<and> fst (allocBuf ex_three) = Inl BufferExceededException"
proof -
  have ok: "pool_ok ex_full" "pool_ok ex_three"
    by (simp_all add: pool_ok_def ex_full_eq ex_three_eq)
  have h1: "(\<forall>i < numBufs ex_full. blocked (bufDescTable ex_full ! i)) \<and>
            (refbit (bufDescTable ex_full ! clockHand ex_full) \<longrightarrow>
               (\<forall>i < numBufs ex_full. pinCnt (bufDescTable ex_full ! i) \<noteq> 0))"
    by (simp add: ex_full_eq blocked_def)
  have h3: "\<forall>i < numBufs ex_three. valid (bufDescTable ex_three ! i) \<and>
              pinCnt (bufDescTable ex_three ! i) \<noteq> 0"
    by (auto simp add: ex_three_eq less_Suc_eq numeral_3_eq_3)
  note t1 = allocBuf_exceeded[OF ok(1), of 0]
  note t3 = allocBuf_exceeded[OF ok(2), of 0]
  have a: "fst (allocBuf ex_full) = Inl BufferExceededException"
    using conjunct1[OF conjunct2[OF t1]] h1 by blast
  have b: "clockHand (snd (allocBuf ex_full)) = clockHand ex_full"
    using conjunct1[OF conjunct2[OF conjunct2[OF t1]]] a by blast
  have c: "fst (allocBuf ex_three) = Inl BufferExceededException"
    using conjunct1[OF conjunct2[OF conjunct2[OF conjunct2[OF t3]]]] h3 by blast
  show ?thesis using ok a b c by blast
qed

theorem sweep_returns_counterexample:
  "clockHand ex_second = 1 \<and>
   fst (allocBuf_visit 1 ex_second) = Continue \<and>
   fst (allocBuf_visit 1 (snd (allocBuf_visit 1 ex_second))) = Continue \<and>
   clockHand (snd (allocBuf_visit 1 (snd (allocBuf_visit 1 ex_second)))) = 1 \<and>
   fst (allocBuf ex_second) = Inr 0"
  by (simp add: ex_second_eq allocBuf_def allocBuf_loop.simps allocBuf_visit_def
      advanceClock_def ht_remove_def Let_def)

lemma ex_chance_eq:
  "ex_chance =
     \<lparr>bufDescTable =
        [\<lparr>filePtr = Some 0, pageNo = 1, frameNo = 0, pinCnt = 0, dirty = False,
          valid = True, refbit = True\<rparr>,
         \<lparr>filePtr = Some 0, pageNo = 2, frameNo = 1, pinCnt = 0, dirty = False,
          valid = True, refbit = False\<rparr>],
      bufPool =
        [\<lparr>page_number = 1, contents = ''disk''\<rparr>, \<lparr>page_number = 2, contents = ''disk''\<rparr>],
      hashTable = [(0, 1) \<mapsto> 0, (0, 2) \<mapsto> 1],
      numBufs = 2,
      clockHand = 1,
      files = ex_files,
      io = [ReadPage 0 1, ReadPage 0 2]\<rparr>"
  by (simp add: ex_chance_def unPinPage_def readPage_def allocBuf_def allocBuf_loop.simps
      allocBuf_visit_def advanceClock_def BufMgr_init_def ht_lookup_def ht_insert_def
      file_readPage_def ex_files_def BufDesc_Set_def BufDesc_Clear_def Let_def upt_rec
      numeral_2_eq_2)

lemma inv_ex_chance: "inv ex_chance"
  unfolding ex_chance_def by (intro unPinPage_inv readPage_inv inv_init) simp

lemma inv_ex_second: "inv ex_second"
  unfolding ex_second_def by (intro unPinPage_inv readPage_inv inv_init) simp

text \<open>
  C4: in a consistent state a visit of the sweep returns a frame that is not valid at
  once; clears the reference bit of a valid, referenced frame and goes on; and takes a
  frame that is valid, unreferenced and unpinned, removing its identity from the hash
  table. Over the whole sweep \<open>allocBuf\<close> therefore returns the first frame that is free
  or valid, unreferenced and unpinned when the hand visits it. On the first revolution
  that is the first frame on the hand's way that is not blocked: the frames passed before
  it have lost their reference bits and nothing else. If every frame is blocked and the
  frame under the hand is referenced, the first revolution clears every reference bit and
  the second takes the first frame on the hand's way that is not pinned. In both cases the
  hand stops on the frame returned, its identity is out of the hash table, its descriptor
  is cleared and the pool storage is untouched; and \<open>allocBuf\<close> returns a frame in no
  other case. With frame 0 referenced and frame 1 not, both valid and unpinned, and the
  hand before frame 0, \<open>allocBuf\<close> clears the bit of frame 0 and evicts frame 1.
\<close>

theorem second_chance:
  assumes "inv s"
  shows "(\<not> valid (bufDescTable s ! clockHand (advanceClock s)) \<longrightarrow>
            allocBuf_visit st s =
              (Found (frameNo (bufDescTable s ! clockHand (advanceClock s))), advanceClock s)) \<and>
         (valid (bufDescTable s ! clockHand (advanceClock s)) \<and>
          refbit (bufDescTable s ! clockHand (advanceClock s)) \<longrightarrow>
            allocBuf_visit st s =
              (Continue, (advanceClock s)\<lparr>bufDescTable := (bufDescTable s)
                 [clockHand (advanceClock s) :=
                    (bufDescTable s ! clockHand (advanceClock s))\<lparr>refbit := False\<rparr>]\<rparr>)) \<and>
         (valid (bufDescTable s ! clockHand (advanceClock s)) \<and>
          \<not> refbit (bufDescTable s ! clockHand (advanceClock s)) \<and>
          pinCnt (bufDescTable s ! clockHand (advanceClock s)) = 0 \<longrightarrow>
            fst (allocBuf_visit st s) =
              Found (frameNo (bufDescTable s ! clockHand (advanceClock s))) \<and>
            (\<forall>f. filePtr (bufDescTable s ! clockHand (advanceClock s)) = Some f \<longrightarrow>
               hashTable (snd (allocBuf_visit st s))
                 (f, pageNo (bufDescTable s ! clockHand (advanceClock s))) = None)) \<and>
         (\<forall>c < numBufs s.
            \<not> blocked (bufDescTable s ! c) \<and>
            (\<forall>i < numBufs s. swept (clockHand s) c i \<and> i \<noteq> c \<longrightarrow> blocked (bufDescTable s ! i)) \<longrightarrow>
            fst (allocBuf s) = Inr c \<and> clockHand (snd (allocBuf s)) = c \<and>
            bufPool (snd (allocBuf s)) = bufPool s \<and>
            bufDescTable (snd (allocBuf s)) ! c = BufDesc_Clear (bufDescTable s ! c) \<and>
            \<not> valid (bufDescTable (snd (allocBuf s)) ! c) \<and>
            (\<forall>i < numBufs s. i \<noteq> c \<longrightarrow>
               bufDescTable (snd (allocBuf s)) ! i =
                 (if swept (clockHand s) c i then (bufDescTable s ! i)\<lparr>refbit := False\<rparr>
                  else bufDescTable s ! i)) \<and>
            hashTable (snd (allocBuf s)) =
              (case filePtr (bufDescTable s ! c) of
                 None \<Rightarrow> hashTable s
               | Some f \<Rightarrow> (hashTable s)((f, pageNo (bufDescTable s ! c)) := None))) \<and>
         (\<forall>c < numBufs s.
            (\<forall>i < numBufs s. blocked (bufDescTable s ! i)) \<and>
            refbit (bufDescTable s ! clockHand s) \<and> pinCnt (bufDescTable s ! c) = 0 \<and>
            (\<forall>i < numBufs s. swept (clockHand s) c i \<and> i \<noteq> c \<longrightarrow>
               pinCnt (bufDescTable s ! i) \<noteq> 0) \<longrightarrow>
            fst (allocBuf s) = Inr c \<and> clockHand (snd (allocBuf s)) = c \<and>
            bufPool (snd (allocBuf s)) = bufPool s \<and>
            bufDescTable (snd (allocBuf s)) ! c = BufDesc_Clear (bufDescTable s ! c) \<and>
            \<not> valid (bufDescTable (snd (allocBuf s)) ! c) \<and>
            (\<forall>i < numBufs s. i \<noteq> c \<longrightarrow>
               bufDescTable (snd (allocBuf s)) ! i = (bufDescTable s ! i)\<lparr>refbit := False\<rparr>) \<and>
            hashTable (snd (allocBuf s)) =
              (case filePtr (bufDescTable s ! c) of
                 None \<Rightarrow> hashTable s
               | Some f \<Rightarrow> (hashTable s)((f, pageNo (bufDescTable s ! c)) := None))) \<and>
         (\<forall>c. fst (allocBuf s) = Inr c \<longleftrightarrow>
            c < numBufs s \<and>
            (\<not> blocked (bufDescTable s ! c) \<and>
             (\<forall>i < numBufs s. swept (clockHand s) c i \<and> i \<noteq> c \<longrightarrow>
                blocked (bufDescTable s ! i)) \<or>
             (\<forall>i < numBufs s. blocked (bufDescTable s ! i)) \<and>
             refbit (bufDescTable s ! clockHand s) \<and> pinCnt (bufDescTable s ! c) = 0 \<and>
             (\<forall>i < numBufs s. swept (clockHand s) c i \<and> i \<noteq> c \<longrightarrow>
                pinCnt (bufDescTable s ! i) \<noteq> 0))) \<and>
         (fst (allocBuf ex_chance) = Inr 1 \<and>
          bufDescTable (snd (allocBuf ex_chance)) ! 0 = (bufDescTable ex_chance ! 0)\<lparr>refbit := False\<rparr> \<and>
          valid (bufDescTable (snd (allocBuf ex_chance)) ! 0) \<and>
          hashTable (snd (allocBuf ex_chance)) (0, 1) = Some 0 \<and>
          \<not> valid (bufDescTable (snd (allocBuf ex_chance)) ! 1) \<and>
          hashTable (snd (allocBuf ex_chance)) (0, 2) = None)"
    (is "?A \<and> ?B \<and> ?C \<and> ?D \<and> ?D2 \<and> ?F \<and> ?E")
proof -
  let ?c0 = "clockHand (advanceClock s)"
  let ?d = "bufDescTable s ! ?c0"
  note ok = inv_pool_ok[OF assms]
  have A: ?A using visit_invalid[OF ok] by blast
  have B: ?B using visit_referenced[OF ok] by blast
  have C: ?C
  proof
    assume h: "valid ?d \<and> \<not> refbit ?d \<and> pinCnt ?d = 0"
    obtain g where g: "filePtr ?d = Some g" "hashTable s (g, pageNo ?d) = Some ?c0"
      using inv_indexed[OF assms hand_in_pool[OF ok]] h by blast
    have "allocBuf_visit st s =
           (Found (frameNo ?d),
            if dirty ?d
            then file_writePage g (bufPool s ! ?c0)
                   ((advanceClock s)\<lparr>hashTable := (hashTable s)((g, pageNo ?d) := None)\<rparr>)
            else (advanceClock s)\<lparr>hashTable := (hashTable s)((g, pageNo ?d) := None),
                    bufDescTable := (bufDescTable s)[?c0 := BufDesc_Clear ?d]\<rparr>)"
      using visit_victim[OF ok _ _ _ g, of st] h by simp
    then show "fst (allocBuf_visit st s) = Found (frameNo ?d) \<and>
            (\<forall>f. filePtr ?d = Some f \<longrightarrow> hashTable (snd (allocBuf_visit st s)) (f, pageNo ?d) = None)"
      using g(1) by simp
  qed
  have D: ?D
  proof (intro allI impI)
    fix c assume c: "c < numBufs s"
      and h: "\<not> blocked (bufDescTable s ! c) \<and>
            (\<forall>i < numBufs s. swept (clockHand s) c i \<and> i \<noteq> c \<longrightarrow> blocked (bufDescTable s ! i))"
    note r = allocBuf_first_free[OF assms c conjunct1[OF h] conjunct2[OF h]]
    then have "\<not> valid (bufDescTable (snd (allocBuf s)) ! c)" by simp
    then show "fst (allocBuf s) = Inr c \<and> clockHand (snd (allocBuf s)) = c \<and>
            bufPool (snd (allocBuf s)) = bufPool s \<and>
            bufDescTable (snd (allocBuf s)) ! c = BufDesc_Clear (bufDescTable s ! c) \<and>
            \<not> valid (bufDescTable (snd (allocBuf s)) ! c) \<and>
            (\<forall>i < numBufs s. i \<noteq> c \<longrightarrow>
               bufDescTable (snd (allocBuf s)) ! i =
                 (if swept (clockHand s) c i then (bufDescTable s ! i)\<lparr>refbit := False\<rparr>
                  else bufDescTable s ! i)) \<and>
            hashTable (snd (allocBuf s)) =
              (case filePtr (bufDescTable s ! c) of
                 None \<Rightarrow> hashTable s
               | Some f \<Rightarrow> (hashTable s)((f, pageNo (bufDescTable s ! c)) := None))"
      using r by blast
  qed
  have D2: ?D2
  proof (intro allI impI)
    fix c assume c: "c < numBufs s"
      and h: "(\<forall>i < numBufs s. blocked (bufDescTable s ! i)) \<and>
            refbit (bufDescTable s ! clockHand s) \<and> pinCnt (bufDescTable s ! c) = 0 \<and>
            (\<forall>i < numBufs s. swept (clockHand s) c i \<and> i \<noteq> c \<longrightarrow>
               pinCnt (bufDescTable s ! i) \<noteq> 0)"
    note r = allocBuf_second_round[OF assms c conjunct1[OF h] conjunct1[OF conjunct2[OF h]]
               conjunct1[OF conjunct2[OF conjunct2[OF h]]]
               conjunct2[OF conjunct2[OF conjunct2[OF h]]]]
    then have "\<not> valid (bufDescTable (snd (allocBuf s)) ! c)" by simp
    then show "fst (allocBuf s) = Inr c \<and> clockHand (snd (allocBuf s)) = c \<and>
            bufPool (snd (allocBuf s)) = bufPool s \<and>
            bufDescTable (snd (allocBuf s)) ! c = BufDesc_Clear (bufDescTable s ! c) \<and>
            \<not> valid (bufDescTable (snd (allocBuf s)) ! c) \<and>
            (\<forall>i < numBufs s. i \<noteq> c \<longrightarrow>
               bufDescTable (snd (allocBuf s)) ! i = (bufDescTable s ! i)\<lparr>refbit := False\<rparr>) \<and>
            hashTable (snd (allocBuf s)) =
              (case filePtr (bufDescTable s ! c) of
                 None \<Rightarrow> hashTable s
               | Some f \<Rightarrow> (hashTable s)((f, pageNo (bufDescTable s ! c)) := None))"
      using r by blast
  qed
  have F: ?F
  proof (intro allI iffI)
    fix c assume "fst (allocBuf s) = Inr c"
    then show "c < numBufs s \<and>
            (\<not> blocked (bufDescTable s ! c) \<and>
             (\<forall>i < numBufs s. swept (clockHand s) c i \<and> i \<noteq> c \<longrightarrow>
                blocked (bufDescTable s ! i)) \<or>
             (\<forall>i < numBufs s. blocked (bufDescTable s ! i)) \<and>
             refbit (bufDescTable s ! clockHand s) \<and> pinCnt (bufDescTable s ! c) = 0 \<and>
             (\<forall>i < numBufs s. swept (clockHand s) c i \<and> i \<noteq> c \<longrightarrow>
                pinCnt (bufDescTable s ! i) \<noteq> 0))"
      by (rule allocBuf_returns[OF assms])
  next
    fix c assume h: "c < numBufs s \<and>
            (\<not> blocked (bufDescTable s ! c) \<and>
             (\<forall>i < numBufs s. swept (clockHand s) c i \<and> i \<noteq> c \<longrightarrow>
                blocked (bufDescTable s ! i)) \<or>
             (\<forall>i < numBufs s. blocked (bufDescTable s ! i)) \<and>
             refbit (bufDescTable s ! clockHand s) \<and> pinCnt (bufDescTable s ! c) = 0 \<and>
             (\<forall>i < numBufs s. swept (clockHand s) c i \<and> i \<noteq> c \<longrightarrow>
                pinCnt (bufDescTable s ! i) \<noteq> 0))"
    then have c: "c < numBufs s" by simp
    show "fst (allocBuf s) = Inr c"
      using h allocBuf_first_free[OF assms c] allocBuf_second_round[OF assms c] by blast
  qed
  have E: ?E
    by (simp add: ex_chance_eq allocBuf_def allocBuf_loop.simps allocBuf_visit_def
      advanceClock_def ht_remove_def BufDesc_Clear_def Let_def)
  show ?thesis by (rule conjI[OF A conjI[OF B conjI[OF C conjI[OF D conjI[OF D2 conjI[OF F E]]]]]])
qed

theorem second_chance_witness:
  "inv ex_chance \<and> 1 < numBufs ex_chance \<and> \<not> blocked (bufDescTable ex_chance ! 1) \<and>
   blocked (bufDescTable ex_chance ! 0) \<and>
   fst (allocBuf ex_chance) = Inr 1 \<and> clockHand (snd (allocBuf ex_chance)) = 1 \<and>
   \<not> valid (bufDescTable (snd (allocBuf ex_chance)) ! 1) \<and>
   bufDescTable (snd (allocBuf ex_chance)) ! 0 = (bufDescTable ex_chance ! 0)\<lparr>refbit := False\<rparr> \<and>
   inv ex_second \<and> blocked (bufDescTable ex_second ! 0) \<and> blocked (bufDescTable ex_second ! 1) \<and>
   refbit (bufDescTable ex_second ! clockHand ex_second) \<and>
   pinCnt (bufDescTable ex_second ! 0) = 0 \<and> pinCnt (bufDescTable ex_second ! 1) = 2 \<and>
   fst (allocBuf ex_second) = Inr 0 \<and> clockHand (snd (allocBuf ex_second)) = 0 \<and>
   \<not> valid (bufDescTable (snd (allocBuf ex_second)) ! 0) \<and>
   hashTable (snd (allocBuf ex_second)) (0, 1) = None \<and>
   bufDescTable (snd (allocBuf ex_second)) ! 1 = (bufDescTable ex_second ! 1)\<lparr>refbit := False\<rparr> \<and>
   fst (allocBuf ex_second) \<noteq> Inr 1"
proof -
  have c: "1 < numBufs ex_chance" by (simp add: ex_chance_eq)
  have b: "\<not> blocked (bufDescTable ex_chance ! 1)" "blocked (bufDescTable ex_chance ! 0)"
    by (simp_all add: ex_chance_eq blocked_def)
  have h: "\<not> blocked (bufDescTable ex_chance ! 1) \<and>
            (\<forall>i < numBufs ex_chance. swept (clockHand ex_chance) 1 i \<and> i \<noteq> 1 \<longrightarrow>
                 blocked (bufDescTable ex_chance ! i))"
    by (auto simp add: ex_chance_eq blocked_def less_Suc_eq numeral_2_eq_2)
  have sw: "0 < numBufs ex_chance" "swept (clockHand ex_chance) 1 0"
    by (simp_all add: ex_chance_eq swept_def)
  note t = mp[OF mp[OF spec[OF conjunct1[OF conjunct2[OF conjunct2[OF conjunct2[OF
             second_chance[OF inv_ex_chance, of 0]]]]], of 1] c] h]
  have a: "fst (allocBuf ex_chance) = Inr 1" "clockHand (snd (allocBuf ex_chance)) = 1"
    "\<not> valid (bufDescTable (snd (allocBuf ex_chance)) ! 1)"
    using t by blast+
  have "\<forall>i < numBufs ex_chance. i \<noteq> 1 \<longrightarrow>
               bufDescTable (snd (allocBuf ex_chance)) ! i =
                 (if swept (clockHand ex_chance) 1 i
                  then (bufDescTable ex_chance ! i)\<lparr>refbit := False\<rparr>
                  else bufDescTable ex_chance ! i)"
    using t by blast
  then have d: "bufDescTable (snd (allocBuf ex_chance)) ! 0 =
      (bufDescTable ex_chance ! 0)\<lparr>refbit := False\<rparr>"
    using sw by simp
  have c2: "0 < numBufs ex_second" "1 < numBufs ex_second" by (simp_all add: ex_second_eq)
  have b2: "blocked (bufDescTable ex_second ! 0)" "blocked (bufDescTable ex_second ! 1)"
    "refbit (bufDescTable ex_second ! clockHand ex_second)"
    "pinCnt (bufDescTable ex_second ! 0) = 0" "pinCnt (bufDescTable ex_second ! 1) = 2"
    by (simp_all add: ex_second_eq blocked_def)
  have h2: "(\<forall>i < numBufs ex_second. blocked (bufDescTable ex_second ! i)) \<and>
            refbit (bufDescTable ex_second ! clockHand ex_second) \<and>
            pinCnt (bufDescTable ex_second ! 0) = 0 \<and>
            (\<forall>i < numBufs ex_second. swept (clockHand ex_second) 0 i \<and> i \<noteq> 0 \<longrightarrow>
               pinCnt (bufDescTable ex_second ! i) \<noteq> 0)"
    by (auto simp add: ex_second_eq blocked_def swept_def less_Suc_eq numeral_2_eq_2)
  note t2 = mp[OF mp[OF spec[OF conjunct1[OF conjunct2[OF conjunct2[OF conjunct2[OF conjunct2[OF
             second_chance[OF inv_ex_second, of 0]]]]]], of 0] c2(1)] h2]
  have a2: "fst (allocBuf ex_second) = Inr 0" "clockHand (snd (allocBuf ex_second)) = 0"
    "\<not> valid (bufDescTable (snd (allocBuf ex_second)) ! 0)"
    using t2 by blast+
  have "hashTable (snd (allocBuf ex_second)) =
              (case filePtr (bufDescTable ex_second ! 0) of
                 None \<Rightarrow> hashTable ex_second
               | Some f \<Rightarrow> (hashTable ex_second)((f, pageNo (bufDescTable ex_second ! 0)) := None))"
    using t2 by blast
  then have e2: "hashTable (snd (allocBuf ex_second)) (0, 1) = None"
    by (simp add: ex_second_eq)
  have "\<forall>i < numBufs ex_second. i \<noteq> 0 \<longrightarrow>
               bufDescTable (snd (allocBuf ex_second)) ! i =
                 (bufDescTable ex_second ! i)\<lparr>refbit := False\<rparr>"
    using t2 by blast
  then have d2: "bufDescTable (snd (allocBuf ex_second)) ! 1 =
      (bufDescTable ex_second ! 1)\<lparr>refbit := False\<rparr>"
    using c2(2) by simp
  have n2: "fst (allocBuf ex_second) \<noteq> Inr 1" using a2(1) by simp
  show ?thesis using inv_ex_chance c b a d inv_ex_second b2 a2 e2 d2 n2 by blast
qed

end
